theory Spec2Isabelle
  imports Complex_Main "HOL-Library.Signed_Division" "HOL-Library.Multiset" "HOL-Library.Sublist"
begin

section \<open>Errors\<close>

text \<open>
  Every exception the modelled functions of \<^verbatim>\<open>app.js\<close> can raise is a value of
  \<open>error\<close>:
  \<^item> \<open>InvalidDigit\<close>: the two \<^verbatim>\<open>throw new Error(...)\<close> statements of
    \<^verbatim>\<open>decodeFromBase\<close> (a character outside the alphabet, a digit not below the base);
  \<^item> \<open>SyntaxError\<close>: raised by \<^verbatim>\<open>BigInt(string)\<close> when the string is not an
    integer literal;
  \<^item> \<open>RangeError\<close>: raised by the BigInt operator \<^verbatim>\<open>/\<close> when the divisor is zero;
  \<^item> \<open>TypeError\<close>: raised by \<^verbatim>\<open>undefined.toString()\<close>;
  \<^item> \<open>NoValidSecrets\<close>: the \<^verbatim>\<open>throw new Error("No valid secrets found from any
    combination")\<close> of \<^verbatim>\<open>findSecretWithMinimumRoots\<close>.
\<close>

datatype error = InvalidDigit | SyntaxError | RangeError | TypeError | NoValidSecrets

section \<open>Base decoding\<close>

text \<open>
  A JavaScript string is modelled as a \<open>string\<close> whose characters are the code units
  \<open>0 .. 255\<close>. \<open>toLowerCase\<close> on that range maps \<open>A .. Z\<close> and the upper-case
  Latin-1 letters (\<open>0xC0 .. 0xDE\<close> without the multiplication sign \<open>0xD7\<close>) to the code
  unit 32 above and leaves every other code unit unchanged.
\<close>

definition toLowerCase_char :: "char \<Rightarrow> char" where
  "toLowerCase_char c =
     (let n = (of_char c :: nat)
      in if (65 \<le> n \<and> n \<le> 90) \<or> (192 \<le> n \<and> n \<le> 222 \<and> n \<noteq> 215)
         then char_of (n + 32) else c)"

definition toLowerCase :: "string \<Rightarrow> string" where
  "toLowerCase s = map toLowerCase_char s"

text \<open>
  The body of the digit loop, lines 27 to 33: a digit between \<^verbatim>\<open>'0'\<close> and
  \<^verbatim>\<open>'9'\<close> has the value \<^verbatim>\<open>parseInt(digit)\<close>, a digit between \<^verbatim>\<open>'a'\<close>
  and \<^verbatim>\<open>'z'\<close> has the value \<^verbatim>\<open>charCode - 'a'.charCode + 10\<close>, anything else
  throws (\<open>None\<close>).
\<close>

definition digitValueOf :: "char \<Rightarrow> nat option" where
  "digitValueOf digit =
     (let n = (of_char digit :: nat)
      in if 48 \<le> n \<and> n \<le> 57 then Some (n - 48)
         else if 97 \<le> n \<and> n \<le> 122 then Some (n - 97 + 10)
         else None)"

text \<open>The \<^verbatim>\<open>for\<close> loop of lines 23 to 40; \<open>result\<close> is the accumulator.\<close>

fun decode_loop :: "int \<Rightarrow> string \<Rightarrow> int \<Rightarrow> error + int" where
  "decode_loop baseNum [] result = Inr result"
| "decode_loop baseNum (digit # digits) result =
     (case digitValueOf digit of
        None \<Rightarrow> Inl InvalidDigit
      | Some digitValue \<Rightarrow>
          if int digitValue \<ge> baseNum then Inl InvalidDigit
          else decode_loop baseNum digits (result * baseNum + int digitValue))"

text \<open>
  \<^verbatim>\<open>BigInt('0x' + value)\<close>, line 16. The argument is parsed as a
  \<^verbatim>\<open>StringIntegerLiteral\<close>: since it starts with \<^verbatim>\<open>0x\<close> it must be a hexadecimal
  literal, that is one or more hexadecimal digits (either case), followed by optional white
  space; anything else is a \<open>SyntaxError\<close>. The white space and line terminator code units
  below 256 are TAB, LF, VT, FF, CR, SP and NBSP.
\<close>

definition hexDigitValue :: "char \<Rightarrow> nat option" where
  "hexDigitValue c =
     (let n = (of_char c :: nat)
      in if 48 \<le> n \<and> n \<le> 57 then Some (n - 48)
         else if 97 \<le> n \<and> n \<le> 102 then Some (n - 87)
         else if 65 \<le> n \<and> n \<le> 70 then Some (n - 55)
         else None)"

definition isHexDigit :: "char \<Rightarrow> bool" where
  "isHexDigit c = (hexDigitValue c \<noteq> None)"

definition isStrWhiteSpaceChar :: "char \<Rightarrow> bool" where
  "isStrWhiteSpaceChar c = ((of_char c :: nat) \<in> {9, 10, 11, 12, 13, 32, 160})"

definition hexMV :: "string \<Rightarrow> int" where
  "hexMV ds = foldl (\<lambda>r d. r * 16 + int (the (hexDigitValue d))) 0 ds"

definition BigInt_0x :: "string \<Rightarrow> error + int" where
  "BigInt_0x v =
     (let ds = takeWhile isHexDigit v; ws = dropWhile isHexDigit v
      in if ds = [] \<or> \<not> list_all isStrWhiteSpaceChar ws then Inl SyntaxError
         else Inr (hexMV ds))"

text \<open>
  \<^verbatim>\<open>decodeFromBase(value, base)\<close>, lines 11 to 43. \<open>baseNum\<close> is the integer that
  \<^verbatim>\<open>parseInt(base)\<close> produced.
\<close>

definition decodeFromBase :: "string \<Rightarrow> int \<Rightarrow> error + int" where
  "decodeFromBase v baseNum =
     (if baseNum = 16 then BigInt_0x v
      else decode_loop baseNum (toLowerCase v) 0)"

text \<open>
  Modelled from the spec: \<open>encode\<close>, "the inverse helper used to build fixtures", is not
  part of the source. It is the standard positional representation of a non-negative
  integer: most significant digit first, digits \<open>0-9\<close> then \<open>a-z\<close>, no leading zero, and
  \<open>0\<close> written as the single digit \<open>0\<close>.
\<close>

definition digitChar :: "nat \<Rightarrow> char" where
  "digitChar d = (if d < 10 then char_of (48 + d) else char_of (87 + d))"

function toDigits :: "nat \<Rightarrow> nat \<Rightarrow> string" where
  "toDigits b v = (if b < 2 \<or> v < b then [digitChar v] else toDigits b (v div b) @ [digitChar (v mod b)])"
  by pat_completeness auto
termination
proof (relation "measure snd")
  show "wf (measure snd)" by simp
next
  fix b v :: nat
  assume "\<not> (b < 2 \<or> v < b)"
  then have "v div b < v" by simp
  then show "((b, v div b), (b, v)) \<in> measure snd" by simp
qed

declare toDigits.simps [simp del]

definition encode :: "int \<Rightarrow> int \<Rightarrow> string" where
  "encode v b = toDigits (nat b) (nat v)"

text \<open>
  The condition of the specification under which a character is not a digit of the given
  base: lower-cased, it is outside \<open>[0-9a-z]\<close> or its value is not below the base.
\<close>

definition invalidDigitFor :: "int \<Rightarrow> char \<Rightarrow> bool" where
  "invalidDigitFor b c =
     (case digitValueOf (toLowerCase_char c) of None \<Rightarrow> True | Some d \<Rightarrow> int d \<ge> b)"

text \<open>A string without its trailing white space.\<close>

definition trimEnd :: "string \<Rightarrow> string" where
  "trimEnd s = rev (dropWhile isStrWhiteSpaceChar (rev s))"


section \<open>Combinations\<close>

text \<open>
  \<^verbatim>\<open>generateCombinations(elements, combinationSize)\<close>, lines 103 to 123. The inner function
  \<^verbatim>\<open>backtrack(startIndex, currentCombination)\<close> appends to the shared array
  \<^verbatim>\<open>allCombinations\<close>, which is passed through here as the last argument and returned.
  \<^verbatim>\<open>currentCombination\<close> is pushed to before the recursive call and popped after it, so
  the caller's value is unchanged when the call returns. \<open>combinationSize\<close> is an integer:
  \<^verbatim>\<open>currentCombination.length === combinationSize\<close> is never true for a negative one.
\<close>

function backtrack :: "'a list \<Rightarrow> int \<Rightarrow> nat \<Rightarrow> 'a list \<Rightarrow> 'a list list \<Rightarrow> 'a list list" where
  "backtrack elements combinationSize startIndex currentCombination allCombinations =
     (if int (length currentCombination) = combinationSize
      then allCombinations @ [currentCombination]
      else fold (\<lambda>i acc. backtrack elements combinationSize (i + 1)
                              (currentCombination @ [elements ! i]) acc)
             [startIndex ..< length elements] allCombinations)"
  by pat_completeness auto
termination
  by (relation "measure (\<lambda>(elements, combinationSize, startIndex, currentCombination, allCombinations).
                  length elements - startIndex)") auto

declare backtrack.simps [simp del]

definition generateCombinations :: "'a list \<Rightarrow> int \<Rightarrow> 'a list list" where
  "generateCombinations elements combinationSize = backtrack elements combinationSize 0 [] []"

text \<open>
  The combinations of \<open>k\<close> elements of a list in the textbook recursion: those that take the
  head, then those that do not. It is what \<open>generateCombinations\<close> is compared with.
\<close>

fun combs :: "nat \<Rightarrow> 'a list \<Rightarrow> 'a list list" where
  "combs 0 xs = [[]]"
| "combs (Suc k) [] = []"
| "combs (Suc k) (x # xs) = map (Cons x) (combs k xs) @ combs (Suc k) xs"

section \<open>Lagrange interpolation\<close>

text \<open>
  A data point \<^verbatim>\<open>{ x, y }\<close>. \<open>x\<close> is a JavaScript number holding an integer (it comes from
  \<^verbatim>\<open>parseInt\<close>) and is converted with \<^verbatim>\<open>BigInt(x)\<close>; \<open>y\<close> is a BigInt.
\<close>

datatype point = Point (px: int) (py: int)

text \<open>
  The BigInt operator \<^verbatim>\<open>/\<close>: the quotient is truncated towards zero (\<open>sdiv\<close>), and a zero
  divisor raises \<open>RangeError\<close>.
\<close>

definition bigint_div :: "int \<Rightarrow> int \<Rightarrow> error + int" where
  "bigint_div a b = (if b = 0 then Inl RangeError else Inr (a sdiv b))"

text \<open>A loop whose body may throw: the first error ends it.\<close>

fun foldE :: "('a \<Rightarrow> 's \<Rightarrow> error + 's) \<Rightarrow> 'a list \<Rightarrow> 's \<Rightarrow> error + 's" where
  "foldE f [] s = Inr s"
| "foldE f (a # as) s = (case f a s of Inl e \<Rightarrow> Inl e | Inr s' \<Rightarrow> foldE f as s')"

text \<open>
  Lines 77 to 82, "multiply current polynomial by \<open>(x - xj)\<close>": a fresh array of zeros, and
  for \<open>k\<close> from \<open>0\<close> to \<open>numberOfPoints - 2\<close> the two assignments
  \<^verbatim>\<open>tempPolynomial[k + 1] = basisPolynomial[k]\<close> and
  \<^verbatim>\<open>tempPolynomial[k] = basisPolynomial[k] * (-xj)\<close>, in that order. Both indices are
  below \<open>numberOfPoints\<close>, the length of the arrays.
\<close>

definition mulStep :: "int list \<Rightarrow> int \<Rightarrow> nat \<Rightarrow> int list \<Rightarrow> int list" where
  "mulStep basisPolynomial xj k tempPolynomial =
     (tempPolynomial[k + 1 := basisPolynomial ! k])[k := basisPolynomial ! k * (- xj)]"

definition multiplyByLinear :: "nat \<Rightarrow> int list \<Rightarrow> int \<Rightarrow> int list" where
  "multiplyByLinear numberOfPoints basisPolynomial xj =
     fold (mulStep basisPolynomial xj) [0 ..< numberOfPoints - 1] (replicate numberOfPoints 0)"

text \<open>
  Lines 66 to 84: the basis polynomial and the denominator of point \<open>i\<close>. The state of the
  \<open>j\<close> loop is the pair \<open>(basisPolynomial, denominator)\<close>.
\<close>

definition basisStep :: "point list \<Rightarrow> nat \<Rightarrow> nat \<Rightarrow> int list \<times> int \<Rightarrow> int list \<times> int" where
  "basisStep dataPoints i j =
     (\<lambda>(basisPolynomial, denominator).
        if i \<noteq> j
        then (multiplyByLinear (length dataPoints) basisPolynomial (px (dataPoints ! j)),
              denominator * (px (dataPoints ! i) - px (dataPoints ! j)))
        else (basisPolynomial, denominator))"

definition buildBasis :: "point list \<Rightarrow> nat \<Rightarrow> int list \<times> int" where
  "buildBasis dataPoints i =
     fold (basisStep dataPoints i) [0 ..< length dataPoints]
       ((replicate (length dataPoints) 0)[0 := 1], 1)"

text \<open>
  Lines 87 to 89: \<^verbatim>\<open>polynomialCoefficients[k] += (yi * basisPolynomial[k]) / denominator\<close>,
  one truncating division for each point and each coefficient.
\<close>

definition accStep :: "int \<Rightarrow> int list \<Rightarrow> int \<Rightarrow> nat \<Rightarrow> int list \<Rightarrow> error + int list" where
  "accStep yi basisPolynomial denominator k polynomialCoefficients =
     (case bigint_div (yi * basisPolynomial ! k) denominator of
        Inl e \<Rightarrow> Inl e
      | Inr q \<Rightarrow> Inr (polynomialCoefficients[k := polynomialCoefficients ! k + q]))"

definition pointStep :: "point list \<Rightarrow> nat \<Rightarrow> int list \<Rightarrow> error + int list" where
  "pointStep dataPoints i polynomialCoefficients =
     (case buildBasis dataPoints i of
        (basisPolynomial, denominator) \<Rightarrow>
          foldE (accStep (py (dataPoints ! i)) basisPolynomial denominator)
            [0 ..< length dataPoints] polynomialCoefficients)"

definition performLagrangeInterpolation :: "point list \<Rightarrow> error + int list" where
  "performLagrangeInterpolation dataPoints =
     foldE (pointStep dataPoints) [0 ..< length dataPoints] (replicate (length dataPoints) 0)"

text \<open>
  Every division that line 88 makes for index 0 is exact: for each point \<open>i\<close> the
  denominator that the loop has built divides \<^verbatim>\<open>yi * basisPolynomial[0]\<close>.
\<close>

definition exactDivisions :: "point list \<Rightarrow> bool" where
  "exactDivisions dataPoints =
     list_all (\<lambda>i. case buildBasis dataPoints i of
                      (basisPolynomial, denominator) \<Rightarrow>
                        denominator dvd py (dataPoints ! i) * basisPolynomial ! 0)
       [0 ..< length dataPoints]"

text \<open>
  The value at \<open>x\<close> of the polynomial with the coefficient list \<open>cs\<close>, index 0 the constant
  term, as the data model of the specification has it.
\<close>

fun poly_eval :: "int list \<Rightarrow> int \<Rightarrow> int" where
  "poly_eval [] x = 0"
| "poly_eval (c # cs) x = c + x * poly_eval cs x"

definition onPolynomial :: "int list \<Rightarrow> point list \<Rightarrow> bool" where
  "onPolynomial cs pts = list_all (\<lambda>p. py p = poly_eval cs (px p)) pts"

text \<open>
  The closed forms with which the loops are compared: the x-values of the points other than
  point \<open>i\<close>, the product of \<open>- xj\<close> and the product of \<open>xi - xj\<close> over them, which are
  the numerator and the denominator of the Lagrange weight of point \<open>i\<close> at \<open>0\<close>.
\<close>

definition others :: "point list \<Rightarrow> nat \<Rightarrow> int list" where
  "others pts i = map px (take i pts @ drop (Suc i) pts)"

definition weightNum :: "point list \<Rightarrow> nat \<Rightarrow> int" where
  "weightNum pts i = prod_list (map uminus (others pts i))"

definition weightDen :: "point list \<Rightarrow> nat \<Rightarrow> int" where
  "weightDen pts i = prod_list (map (\<lambda>xj. px (pts ! i) - xj) (others pts i))"

text \<open>
  Coefficient \<open>k\<close> of the array \<^verbatim>\<open>basisPolynomial\<close> that the loop of lines 71 to 84
  leaves for \<open>n\<close> points, \<open>os\<close> being the x-values of the other points: index 0 holds the
  product of the \<open>- xj\<close>; the assignment to \<^verbatim>\<open>tempPolynomial[k]\<close> overwrites what the
  step before stored in \<^verbatim>\<open>tempPolynomial[k + 1]\<close>, so that every other index holds 0,
  except index 1 for two points, which holds 1.
\<close>

definition basisCoeff :: "nat \<Rightarrow> int list \<Rightarrow> nat \<Rightarrow> int" where
  "basisCoeff n os k =
     (if k = 0 then prod_list (map uminus os) else if n = 2 \<and> k = 1 \<and> os \<noteq> [] then 1 else 0)"

text \<open>
  A real function that is a polynomial of degree at most \<open>n\<close>. It is used to state and
  prove the interpolation formula of Lagrange, with which the sums that the code computes
  are compared.
\<close>

definition polyfn :: "nat \<Rightarrow> (real \<Rightarrow> real) \<Rightarrow> bool" where
  "polyfn n f \<longleftrightarrow> (\<exists>c. \<forall>t. f t = (\<Sum>i\<le>n. c i * t ^ i))"

section \<open>Secret recovery\<close>

text \<open>
  \<^verbatim>\<open>secretFrequencyMap\<close> is a JavaScript \<^verbatim>\<open>Map\<close>: it iterates in insertion order, and
  \<^verbatim>\<open>set\<close> on a key that is present keeps the key's position. It is an association list
  here. The keys of the source are the decimal strings \<^verbatim>\<open>constantTerm.toString()\<close>, which
  \<^verbatim>\<open>BigInt(mostCommonSecret)\<close> turns back into the integer; the integer itself is the key
  of the model.
\<close>

fun mapSet :: "('k \<times> 'v) list \<Rightarrow> 'k \<Rightarrow> 'v \<Rightarrow> ('k \<times> 'v) list" where
  "mapSet [] k v = [(k, v)]"
| "mapSet ((k', v') # m) k v = (if k' = k then (k, v) # m else (k', v') # mapSet m k v)"

text \<open>
  What one subset contributes, lines 145 to 148: the interpolation may throw, and
  \<^verbatim>\<open>polynomialCoefficients[0]\<close> is \<^verbatim>\<open>undefined\<close> for an empty array, on which
  \<^verbatim>\<open>toString\<close> throws.
\<close>

definition candidate :: "point list \<Rightarrow> error + int" where
  "candidate rootCombination =
     (case performLagrangeInterpolation rootCombination of
        Inl e \<Rightarrow> Inl e
      | Inr polynomialCoefficients \<Rightarrow>
          (case polynomialCoefficients of [] \<Rightarrow> Inl TypeError | constantTerm # _ \<Rightarrow> Inr constantTerm))"

text \<open>
  Line 149, \<^verbatim>\<open>secretFrequencyMap.set(secretKey, (secretFrequencyMap.get(secretKey) || 0) + 1)\<close>,
  and the body of \<^verbatim>\<open>forEach\<close>, lines 143 to 158: \<^verbatim>\<open>catch\<close> only logs, the map is
  left as it was.
\<close>

definition countSecret :: "int \<Rightarrow> (int \<times> nat) list \<Rightarrow> (int \<times> nat) list" where
  "countSecret secretKey m =
     mapSet m secretKey ((case map_of m secretKey of None \<Rightarrow> 0 | Some c \<Rightarrow> c) + 1)"

definition tallyStep :: "point list \<Rightarrow> (int \<times> nat) list \<Rightarrow> (int \<times> nat) list" where
  "tallyStep rootCombination m =
     (case candidate rootCombination of
        Inl e \<Rightarrow> m
      | Inr constantTerm \<Rightarrow> countSecret constantTerm m)"

definition secretFrequencyMap :: "point list \<Rightarrow> int \<Rightarrow> (int \<times> nat) list" where
  "secretFrequencyMap allRoots k = fold tallyStep (generateCombinations allRoots k) []"

text \<open>
  Lines 165 to 167: \<^verbatim>\<open>reduce\<close> without an initial value starts from the first entry and
  replaces it only by an entry with a strictly greater count.
\<close>

definition mostFrequentEntry :: "(int \<times> nat) list \<Rightarrow> int \<times> nat" where
  "mostFrequentEntry entries =
     foldl (\<lambda>mostFrequent current. if snd current > snd mostFrequent then current else mostFrequent)
       (hd entries) (tl entries)"

record result =
  secret :: int
  frequency :: nat
  totalCombinations :: nat

definition findSecretWithMinimumRoots :: "point list \<Rightarrow> int \<Rightarrow> error + result" where
  "findSecretWithMinimumRoots allRoots k =
     (let allCombinations = generateCombinations allRoots k;
          m = fold tallyStep allCombinations []
      in if m = [] then Inl NoValidSecrets
         else let mostCommonSecret = fst (mostFrequentEntry m)
              in Inr \<lparr> secret = mostCommonSecret,
                       frequency = the (map_of m mostCommonSecret),
                       totalCombinations = length allCombinations \<rparr>)"

text \<open>
  The candidate secrets in the order in which the subsets produce them, the failed subsets
  left out.
\<close>

definition candidates :: "point list \<Rightarrow> int \<Rightarrow> int list" where
  "candidates allRoots k =
     concat (map (\<lambda>c. case candidate c of Inl e \<Rightarrow> [] | Inr s \<Rightarrow> [s]) (generateCombinations allRoots k))"

text \<open>The map after counting a list of candidate secrets, one after the other.\<close>

definition tally :: "int list \<Rightarrow> (int \<times> nat) list" where
  "tally cs = fold countSecret cs []"

section \<open>Properties of the decoder\<close>


lemma decode_loop_append:
  "decode_loop b (xs @ ys) r =
     (case decode_loop b xs r of Inl e \<Rightarrow> Inl e | Inr r' \<Rightarrow> decode_loop b ys r')"
  by (induction xs arbitrary: r) (auto split: option.splits)

lemma digitValueOf_digitChar: "d < 36 \<Longrightarrow> digitValueOf (digitChar d) = Some d"
  by (auto simp: digitValueOf_def digitChar_def Let_def)

lemma toLowerCase_char_digitChar: "d < 36 \<Longrightarrow> toLowerCase_char (digitChar d) = digitChar d"
  by (auto simp: toLowerCase_char_def digitChar_def Let_def)

lemma toLowerCase_toDigits: "2 \<le> b \<Longrightarrow> b \<le> 36 \<Longrightarrow> toLowerCase (toDigits b v) = toDigits b v"
proof (induction b v rule: toDigits.induct)
  case (1 b v)
  show ?case
  proof (cases "v < b")
    case True
    with 1 show ?thesis by (subst (1 2) toDigits.simps) (simp add: toLowerCase_def toLowerCase_char_digitChar)
  next
    case False
    have "v mod b < b" using 1(2) by simp
    then have "v mod b < 36" using 1(3) by linarith
    with False 1 show ?thesis
      by (subst (1 2) toDigits.simps) (simp add: toLowerCase_def toLowerCase_char_digitChar)
  qed
qed

lemma decode_loop_toDigits:
  "2 \<le> b \<Longrightarrow> b \<le> 36 \<Longrightarrow> decode_loop (int b) (toDigits b v) 0 = Inr (int v)"
proof (induction b v rule: toDigits.induct)
  case (1 b v)
  show ?case
  proof (cases "v < b")
    case True
    with 1 show ?thesis by (subst toDigits.simps) (simp add: digitValueOf_digitChar)
  next
    case False
    have m0: "v mod b < b" using 1(2) by simp
    then have m: "v mod b < 36" "v mod b < b" using 1(3) by linarith+
    have e: "int (v div b) * int b + int (v mod b) = int v"
      by (metis div_mult_mod_eq of_nat_add of_nat_mult)
    have dv: "digitValueOf (digitChar (v mod b)) = Some (v mod b)"
      using m(1) by (rule digitValueOf_digitChar)
    have ih: "decode_loop (int b) (toDigits b (v div b)) 0 = Inr (int (v div b))"
      using False 1 by simp
    have "decode_loop (int b) (toDigits b (v div b) @ [digitChar (v mod b)]) 0
            = Inr (int (v div b) * int b + int (v mod b))"
      using m(2) by (simp add: decode_loop_append ih dv)
    then show ?thesis using False 1(2) e
      by (subst toDigits.simps) simp
  qed
qed

lemma decode_loop_fails_iff:
  "decode_loop b s r = Inl InvalidDigit \<longleftrightarrow>
     (\<exists>c\<in>set s. case digitValueOf c of None \<Rightarrow> True | Some d \<Rightarrow> int d \<ge> b)"
  by (induction s arbitrary: r) (auto split: option.splits)

lemma decode_loop_cases:
  "decode_loop b s r = Inl InvalidDigit \<or> (\<exists>v. decode_loop b s r = Inr v)"
  by (induction s arbitrary: r) (auto split: option.splits)


lemma hexDigitValue_digitChar: "d < 16 \<Longrightarrow> hexDigitValue (digitChar d) = Some d"
  by (auto simp: hexDigitValue_def digitChar_def Let_def)

lemma hexMV_snoc: "hexMV (ds @ [d]) = hexMV ds * 16 + int (the (hexDigitValue d))"
  by (simp add: hexMV_def)

lemma toDigits_hex:
  "list_all isHexDigit (toDigits 16 v) \<and> toDigits 16 v \<noteq> [] \<and> hexMV (toDigits 16 v) = int v"
proof (induction "16::nat" v rule: toDigits.induct)
  case (1 v)
  show ?case
  proof (cases "v < 16")
    case True
    then show ?thesis by (subst (1 2 3) toDigits.simps) (simp add: isHexDigit_def hexDigitValue_digitChar hexMV_def)
  next
    case False
    have m: "v mod 16 < 16" by simp
    have "int (v div 16) * 16 + int (v mod 16) = int v"
      by (metis div_mult_mod_eq of_nat_add of_nat_mult of_nat_numeral)
    with False 1 m show ?thesis
      by (subst (1 2 3) toDigits.simps) (simp add: isHexDigit_def hexDigitValue_digitChar hexMV_snoc)
  qed
qed

lemma BigInt_0x_toDigits: "BigInt_0x (toDigits 16 v) = Inr (int v)"
proof -
  have a: "list_all isHexDigit (toDigits 16 v)" and n: "toDigits 16 v \<noteq> []"
    and h: "hexMV (toDigits 16 v) = int v"
    using toDigits_hex [of v] by blast+
  have t: "takeWhile isHexDigit (toDigits 16 v) = toDigits 16 v"
    using a by (simp add: list_all_iff)
  have d: "dropWhile isHexDigit (toDigits 16 v) = []"
    using a by (simp add: list_all_iff)
  show ?thesis unfolding BigInt_0x_def Let_def t d using n h by simp
qed

text \<open>
  Claim C9: for every integer \<open>v \<ge> 0\<close> and every base \<open>b\<close> from 2 to 36, decoding the
  standard base-\<open>b\<close> digit string of \<open>v\<close> gives exactly \<open>v\<close>. The result is an unbounded
  integer, so nothing is lost to a fixed width.
\<close>

theorem decode_encode_roundtrip:
  assumes "0 \<le> v" and "2 \<le> b" and "b \<le> 36"
  shows "decodeFromBase (encode v b) b = Inr v"
proof (cases "b = 16")
  case True
  then show ?thesis using assms(1) by (simp add: decodeFromBase_def encode_def BigInt_0x_toDigits)
next
  case False
  obtain b' v' where b': "b = int b'" and v': "v = int v'"
    using assms by (metis nonneg_int_cases order_trans zero_le_numeral)
  have b: "2 \<le> b'" "b' \<le> 36" using assms b' by auto
  have "decode_loop (int b') (toLowerCase (toDigits b' v')) 0 = Inr (int v')"
    using b by (simp add: toLowerCase_toDigits decode_loop_toDigits)
  then show ?thesis using False by (simp add: decodeFromBase_def encode_def b' v')
qed

theorem decode_encode_roundtrip_witness:
  "(0::int) \<le> 1234567 \<and> (2::int) \<le> 36 \<and> (36::int) \<le> 36 \<and> encode 1234567 36 = ''qglj''
     \<and> decodeFromBase ''qglj'' 36 = Inr 1234567"
proof -
  have e: "encode 1234567 36 = ''qglj''"
    by (simp add: encode_def digitChar_def toDigits.simps char_of_eq_iff)
  show ?thesis using decode_encode_roundtrip [of 1234567 36] by (simp add: e)
qed


lemma isHexDigit_iff: "isHexDigit c \<longleftrightarrow> \<not> invalidDigitFor 16 c"
  by (auto simp: isHexDigit_def hexDigitValue_def invalidDigitFor_def digitValueOf_def
      toLowerCase_char_def Let_def split: option.splits if_splits)

lemma isHexDigit_not_space: "isHexDigit c \<Longrightarrow> \<not> isStrWhiteSpaceChar c"
  by (auto simp: isHexDigit_def hexDigitValue_def isStrWhiteSpaceChar_def Let_def split: if_splits)

lemma trimEnd_append:
  "trimEnd (xs @ ys) = (if list_all isStrWhiteSpaceChar ys then trimEnd xs else xs @ trimEnd ys)"
  by (simp add: trimEnd_def dropWhile_append list_all_iff)

lemma trimEnd_hex: "list_all isHexDigit ds \<Longrightarrow> trimEnd ds = ds"
proof (cases ds rule: rev_cases)
  case Nil
  then show ?thesis by (simp add: trimEnd_def)
next
  case (snoc ys y)
  assume "list_all isHexDigit ds"
  with snoc have "\<not> isStrWhiteSpaceChar y" by (simp add: isHexDigit_not_space)
  with snoc show ?thesis by (simp add: trimEnd_def)
qed

lemma trimEnd_prefix_hd:
  assumes "\<not> list_all isStrWhiteSpaceChar ws"
  shows "hd ws \<in> set (trimEnd ws)"
proof -
  from assms obtain w where w: "w \<in> set ws" "\<not> isStrWhiteSpaceChar w"
    by (auto simp: list_all_iff)
  then obtain as bs where ws: "ws = as @ w # bs" by (meson split_list)
  have "trimEnd ws = (if list_all isStrWhiteSpaceChar bs then trimEnd (as @ [w]) else (as @ [w]) @ trimEnd bs)"
    using trimEnd_append [of "as @ [w]" bs] ws by simp
  moreover have "trimEnd (as @ [w]) = as @ [w]" using w(2) by (simp add: trimEnd_def)
  ultimately have "set (as @ [w]) \<subseteq> set (trimEnd ws)" by auto
  moreover have "hd ws \<in> set (as @ [w])" using ws by (cases as) auto
  ultimately show ?thesis by blast
qed

lemma BigInt_0x_fails_iff:
  "BigInt_0x s = Inl SyntaxError \<longleftrightarrow>
     trimEnd s = [] \<or> (\<exists>c\<in>set (trimEnd s). \<not> isHexDigit c)"
proof -
  define ds where "ds = takeWhile isHexDigit s"
  define ws where "ws = dropWhile isHexDigit s"
  have s: "s = ds @ ws" by (simp add: ds_def ws_def)
  have dh: "list_all isHexDigit ds" by (auto simp: ds_def list_all_iff dest: set_takeWhileD)
  have B: "BigInt_0x s = Inl SyntaxError \<longleftrightarrow> ds = [] \<or> \<not> list_all isStrWhiteSpaceChar ws"
    by (simp add: BigInt_0x_def Let_def ds_def ws_def)
  show ?thesis
  proof (cases "list_all isStrWhiteSpaceChar ws")
    case True
    then have "trimEnd s = ds" using s trimEnd_append [of ds ws] dh by (simp add: trimEnd_hex)
    then show ?thesis using B True dh by (auto simp: list_all_iff)
  next
    case False
    then have "ws \<noteq> []" by auto
    then have "\<not> isHexDigit (hd ws)" unfolding ws_def by (rule hd_dropWhile)
    moreover have "hd ws \<in> set (trimEnd ws)" using False by (rule trimEnd_prefix_hd)
    moreover have "trimEnd s = ds @ trimEnd ws" using s trimEnd_append [of ds ws] False by simp
    ultimately show ?thesis using B False by auto
  qed
qed

lemma BigInt_0x_cases: "BigInt_0x s = Inl SyntaxError \<or> (\<exists>v. BigInt_0x s = Inr v)"
  by (simp add: BigInt_0x_def Let_def)

lemma decode_loop_lower_fails_iff:
  "decode_loop b (toLowerCase s) 0 = Inl InvalidDigit \<longleftrightarrow> (\<exists>c\<in>set s. invalidDigitFor b c)"
  by (simp add: decode_loop_fails_iff toLowerCase_def invalidDigitFor_def)

text \<open>
  When the decoder fails. On the digit loop, which every base other than 16 takes,
  \<open>decodeFromBase\<close> fails, with \<open>InvalidDigit\<close>, exactly when some character of the string,
  lower-cased, is outside \<open>[0-9a-z]\<close> or has a digit value that is not below the base. For
  base 16 the string goes to \<^verbatim>\<open>BigInt('0x' + value)\<close> instead: the failure is a
  \<open>SyntaxError\<close>, and it happens exactly when the string without its trailing white space
  is empty or has a character that is not a hexadecimal digit.
\<close>

lemma decodeFromBase_fails_iff:
  "(b \<noteq> 16 \<longrightarrow>
      (decodeFromBase s b = Inl InvalidDigit \<longleftrightarrow> (\<exists>c\<in>set s. invalidDigitFor b c)) \<and>
      (decodeFromBase s b = Inl InvalidDigit \<or> (\<exists>v. decodeFromBase s b = Inr v))) \<and>
   (b = 16 \<longrightarrow>
      (decodeFromBase s b = Inl SyntaxError \<longleftrightarrow>
         trimEnd s = [] \<or> (\<exists>c\<in>set (trimEnd s). invalidDigitFor 16 c)) \<and>
      (decodeFromBase s b = Inl SyntaxError \<or> (\<exists>v. decodeFromBase s b = Inr v)))"
proof (cases "b = 16")
  case True
  then show ?thesis
    using BigInt_0x_fails_iff [of s] BigInt_0x_cases [of s]
    by (simp add: decodeFromBase_def isHexDigit_iff)
next
  case False
  then show ?thesis
    using decode_loop_lower_fails_iff [of b s] decode_loop_cases [of b "toLowerCase s" 0]
    by (simp add: decodeFromBase_def)
qed

lemma decodeFromBase_fails_iff_example:
  "(10::int) \<noteq> 16 \<and> decodeFromBase ''12a'' 10 = Inl InvalidDigit \<and> invalidDigitFor 10 (CHR ''a'') \<and>
   decodeFromBase ''g'' 16 = Inl SyntaxError \<and> trimEnd ''g'' = ''g'' \<and> invalidDigitFor 16 (CHR ''g'')"
  using decodeFromBase_fails_iff [of 10 "''12a''"] decodeFromBase_fails_iff [of 16 "''g''"]
  by (simp add: invalidDigitFor_def digitValueOf_def toLowerCase_char_def trimEnd_def isStrWhiteSpaceChar_def)

text \<open>
  Claim C5 at failing inputs: \<open>decodeFromBase\<close> is to fail with \<open>InvalidDigit\<close> exactly when
  some character of the string is outside \<open>[0-9a-z]\<close> or has a digit value that is not
  below the base. The shortcut for base 16 of lines 15 to 17 does not do what the digit loop
  of the same function does. The string \<open>''1 ''\<close> has a blank, which is outside
  \<open>[0-9a-z]\<close>: the digit loop throws on it (base 10), the shortcut returns 1. The empty
  string has no invalid character: the digit loop returns 0 (base 10), the shortcut throws.
  And the digit \<open>g\<close> with base 16 throws the \<open>SyntaxError\<close> of \<^verbatim>\<open>BigInt\<close>, not the
  error of lines 32 and 36.
\<close>

theorem decodeFromBase_hex_failing_input:
  "invalidDigitFor 16 (CHR '' '') \<and>
   decodeFromBase ''1 '' 16 = Inr 1 \<and> decodeFromBase ''1 '' 10 = Inl InvalidDigit \<and>
   decodeFromBase [] 16 = Inl SyntaxError \<and> decodeFromBase [] 10 = Inr 0 \<and>
   invalidDigitFor 16 (CHR ''g'') \<and>
   decodeFromBase ''g'' 16 = Inl SyntaxError \<and> decodeFromBase ''g'' 15 = Inl InvalidDigit"
  by (simp add: decodeFromBase_def BigInt_0x_def isHexDigit_def hexDigitValue_def
      isStrWhiteSpaceChar_def hexMV_def invalidDigitFor_def digitValueOf_def toLowerCase_char_def
      toLowerCase_def)

section \<open>Properties of the enumeration\<close>

lemma fold_append_results:
  assumes "\<And>i acc. i \<in> set is \<Longrightarrow> f i acc = acc @ g i"
  shows "fold f is acc = acc @ concat (map g is)"
  using assms by (induction "is" arbitrary: acc) simp_all

lemma fold_unchanged:
  assumes "\<And>i acc. i \<in> set is \<Longrightarrow> f i acc = acc"
  shows "fold f is acc = acc"
  using assms by (induction "is" arbitrary: acc) simp_all

lemma combs_drop_unfold:
  "combs (Suc m) (drop s es) =
     concat (map (\<lambda>i. map (Cons (es ! i)) (combs m (drop (Suc i) es))) [s ..< length es])"
proof (induction "length es - s" arbitrary: s)
  case 0
  then show ?case by simp
next
  case (Suc d)
  then have s: "s < length es" by simp
  then have d: "drop s es = es ! s # drop (Suc s) es" by (simp add: Cons_nth_drop_Suc)
  have u: "[s ..< length es] = s # [Suc s ..< length es]" using s by (simp add: upt_conv_Cons)
  have "d = length es - Suc s" using Suc(2) by simp
  then have ih: "combs (Suc m) (drop (Suc s) es) =
     concat (map (\<lambda>i. map (Cons (es ! i)) (combs m (drop (Suc i) es))) [Suc s ..< length es])"
    by (rule Suc(1))
  show ?case unfolding d u using ih by simp
qed

lemma backtrack_too_long:
  "combinationSize < int (length currentCombination) \<Longrightarrow>
     backtrack elements combinationSize startIndex currentCombination allCombinations = allCombinations"
proof (induction elements combinationSize startIndex currentCombination allCombinations rule: backtrack.induct)
  case (1 elements combinationSize startIndex currentCombination allCombinations)
  have "fold (\<lambda>i acc. backtrack elements combinationSize (i + 1) (currentCombination @ [elements ! i]) acc)
          [startIndex ..< length elements] allCombinations = allCombinations"
  proof (rule fold_unchanged)
    fix i acc assume "i \<in> set [startIndex ..< length elements]"
    then show "backtrack elements combinationSize (i + 1) (currentCombination @ [elements ! i]) acc = acc"
      using 1 by simp
  qed
  then show ?case using 1(2) by (subst backtrack.simps) simp
qed

lemma backtrack_combs:
  "int (length currentCombination) \<le> combinationSize \<Longrightarrow>
     backtrack elements combinationSize startIndex currentCombination allCombinations =
       allCombinations @ map ((@) currentCombination)
         (combs (nat combinationSize - length currentCombination) (drop startIndex elements))"
proof (induction elements combinationSize startIndex currentCombination allCombinations rule: backtrack.induct)
  case (1 elements combinationSize startIndex currentCombination allCombinations)
  show ?case
  proof (cases "int (length currentCombination) = combinationSize")
    case True
    then show ?thesis by (subst backtrack.simps) auto
  next
    case False
    with 1(2) have lt: "int (length currentCombination) < combinationSize" by simp
    define m where "m = nat combinationSize - length currentCombination - 1"
    have m: "nat combinationSize - length currentCombination = Suc m"
      using lt unfolding m_def by linarith
    have step: "backtrack elements combinationSize (i + 1) (currentCombination @ [elements ! i]) acc =
             acc @ map ((@) currentCombination) (map (Cons (elements ! i)) (combs m (drop (Suc i) elements)))"
      if "i \<in> set [startIndex ..< length elements]" for i acc
    proof -
      have "nat combinationSize - length (currentCombination @ [elements ! i]) = m"
        using m by simp
      moreover have "int (length (currentCombination @ [elements ! i])) \<le> combinationSize"
        using lt by simp
      ultimately show ?thesis using 1(1) [OF False that] by simp
    qed
    have "fold (\<lambda>i acc. backtrack elements combinationSize (i + 1) (currentCombination @ [elements ! i]) acc)
            [startIndex ..< length elements] allCombinations =
          allCombinations @ concat (map (\<lambda>i. map ((@) currentCombination)
             (map (Cons (elements ! i)) (combs m (drop (Suc i) elements)))) [startIndex ..< length elements])"
      by (rule fold_append_results) (rule step)
    also have "concat (map (\<lambda>i. map ((@) currentCombination)
             (map (Cons (elements ! i)) (combs m (drop (Suc i) elements)))) [startIndex ..< length elements])
        = map ((@) currentCombination) (combs (Suc m) (drop startIndex elements))"
      unfolding combs_drop_unfold by (simp add: map_concat comp_def)
    finally show ?thesis using False m by (subst backtrack.simps) simp
  qed
qed

lemma generateCombinations_combs:
  "0 \<le> k \<Longrightarrow> generateCombinations elements k = combs (nat k) elements"
proof -
  have "map ((@) []) xss = xss" for xss :: "'a list list" by (induction xss) simp_all
  then show "0 \<le> k \<Longrightarrow> generateCombinations elements k = combs (nat k) elements"
    by (simp add: generateCombinations_def backtrack_combs)
qed

lemma generateCombinations_negative:
  "k < 0 \<Longrightarrow> generateCombinations elements k = []"
  by (simp add: generateCombinations_def backtrack_too_long)

lemma combs_too_many: "length xs < k \<Longrightarrow> combs k xs = []"
  by (induction k xs rule: combs.induct) auto

lemma length_combs: "length (combs k xs) = length xs choose k"
  by (induction k xs rule: combs.induct) auto

lemma combs_map: "combs k (map f xs) = map (map f) (combs k xs)"
  by (induction k xs rule: combs.induct) auto


lemma combs_subseq: "c \<in> set (combs k xs) \<Longrightarrow> subseq c xs \<and> length c = k"
  by (induction k xs arbitrary: c rule: combs.induct) auto

lemma subseq_in_combs: "subseq c xs \<Longrightarrow> c \<in> set (combs (length c) xs)"
proof (induction xs arbitrary: c)
  case Nil
  then have "c = []" by (rule list_emb_Nil2)
  then show ?case by simp
next
  case (Cons x xs)
  show ?case
  proof (cases c)
    case Nil
    then show ?thesis by simp
  next
    case (Cons y ys)
    show ?thesis
    proof (cases "y = x")
      case True
      with Cons.prems Cons have "subseq ys xs" by simp
      then have "ys \<in> set (combs (length ys) xs)" by (rule Cons.IH)
      with True Cons show ?thesis by simp
    next
      case False
      with Cons.prems Cons have "subseq c xs" by simp
      then have "c \<in> set (combs (length c) xs)" by (rule Cons.IH)
      with Cons show ?thesis by simp
    qed
  qed
qed

lemma set_combs: "set (combs k xs) = {c. subseq c xs \<and> length c = k}"
  using combs_subseq subseq_in_combs by blast

lemma subseq_set_sorted:
  "subseq c xs \<Longrightarrow> set c \<subseteq> set xs \<and> (sorted_wrt R xs \<longrightarrow> sorted_wrt R c)"
  by (induction rule: list_emb.induct) auto

lemma subseq_upt_iff:
  fixes c :: "nat list"
  shows "subseq c [0 ..< n] \<longleftrightarrow> sorted_wrt (<) c \<and> set c \<subseteq> {..<n}"
proof
  assume s: "subseq c [0 ..< n]"
  have "sorted_wrt (<) [0 ..< n]" by simp
  then show "sorted_wrt (<) c \<and> set c \<subseteq> {..<n}"
    using subseq_set_sorted [OF s, of "(<)"] by auto
next
  assume a: "sorted_wrt (<) c \<and> set c \<subseteq> {..<n}"
  have "sorted_wrt (\<le>) [0 ..< n]" by simp
  moreover have "set c \<subseteq> set [0 ..< n]" using a by auto
  ultimately show "subseq c [0 ..< n]" using a sorted_subset_imp_subseq by blast
qed

lemma combs_lex_sorted:
  fixes xs :: "nat list"
  shows "sorted_wrt (<) xs \<Longrightarrow> sorted_wrt (ord.lexordp (<)) (combs k xs)"
proof (induction k xs rule: combs.induct)
  case (3 k x xs)
  have a: "sorted_wrt (ord.lexordp (<)) (map (Cons x) (combs k xs))"
    using 3 by (simp add: sorted_wrt_map)
  have b: "sorted_wrt (ord.lexordp (<)) (combs (Suc k) xs)" using 3 by simp
  have c: "ord.lexordp (<) u v"
    if uu: "u \<in> set (map (Cons x) (combs k xs))" and vv: "v \<in> set (combs (Suc k) xs)" for u v
  proof -
    from vv have v: "subseq v xs" "length v = Suc k" using combs_subseq by blast+
    then obtain y ys where yv: "v = y # ys" by (cases v) auto
    have "y \<in> set xs" using subseq_set_sorted [OF v(1), of "(<)"] yv by auto
    then have "x < y" using 3(3) by auto
    moreover obtain us where "u = x # us" using uu by auto
    ultimately show ?thesis using yv by simp
  qed
  show ?case using a b c by (simp add: sorted_wrt_append)
qed simp_all

text \<open>
  Claim C6: for \<open>1 \<le> k \<le> n\<close> the enumerator produces exactly the \<open>C(n,k)\<close> combinations of
  \<open>k\<close> distinct points. With the combinations written as lists of positions in the input:
  each one is strictly increasing (distinct positions, in input order), every strictly
  increasing list of \<open>k\<close> positions below \<open>n\<close> is produced, and the sequence of combinations
  is strictly increasing in the lexicographic order of the position lists, so that nothing
  is produced twice.
\<close>

theorem generateCombinations_enumerates:
  assumes "1 \<le> k" and "k \<le> int (length points)"
  shows "generateCombinations points k =
           map (map (nth points)) (generateCombinations [0 ..< length points] k) \<and>
         length (generateCombinations points k) = length points choose nat k \<and>
         set (generateCombinations [0 ..< length points] k) =
           {c. length c = nat k \<and> sorted_wrt (<) c \<and> set c \<subseteq> {..<length points}} \<and>
         sorted_wrt (ord.lexordp (<)) (generateCombinations [0 ..< length points] k)"
proof -
  have k: "0 \<le> k" using assms(1) by simp
  have "combs (nat k) points = combs (nat k) (map (nth points) [0 ..< length points])"
    by (simp add: map_nth)
  then have 1: "generateCombinations points k =
           map (map (nth points)) (generateCombinations [0 ..< length points] k)"
    using k by (simp add: generateCombinations_combs combs_map)
  have 2: "length (generateCombinations points k) = length points choose nat k"
    using k by (simp add: generateCombinations_combs length_combs)
  have 3: "set (generateCombinations [0 ..< length points] k) =
           {c. length c = nat k \<and> sorted_wrt (<) c \<and> set c \<subseteq> {..<length points}}"
    using k by (auto simp: generateCombinations_combs set_combs subseq_upt_iff)
  have 4: "sorted_wrt (ord.lexordp (<)) (generateCombinations [0 ..< length points] k)"
    using k by (simp add: generateCombinations_combs combs_lex_sorted)
  show ?thesis using 1 2 3 4 by blast
qed

theorem generateCombinations_enumerates_witness:
  "(1::int) \<le> 2 \<and> (2::int) \<le> int (length ''abcd'') \<and>
   generateCombinations ''abcd'' 2 = [''ab'', ''ac'', ''ad'', ''bc'', ''bd'', ''cd''] \<and>
   length (generateCombinations ''abcd'' 2) = length ''abcd'' choose nat 2 \<and>
   length ''abcd'' choose nat 2 = 6"
proof -
  have g: "generateCombinations ''abcd'' 2 = [''ab'', ''ac'', ''ad'', ''bc'', ''bd'', ''cd'']"
    by (simp add: generateCombinations_combs numeral_2_eq_2)
  have h: "(1::int) \<le> 2" "(2::int) \<le> int (length ''abcd'')" by simp_all
  have c: "length ''abcd'' choose nat 2 = 6" by (simp add: numeral_2_eq_2)
  have "length (generateCombinations ''abcd'' 2) = length ''abcd'' choose nat 2"
    using generateCombinations_enumerates [OF h] by blast
  then show ?thesis using g h c by blast
qed

text \<open>
  Claim C4, as the code has it: the enumeration has no check of \<open>k\<close> and never fails. It
  returns the empty list of combinations when \<open>k\<close> is greater than the number of points or
  negative, and the list holding the empty combination when \<open>k = 0\<close>.
\<close>

theorem generateCombinations_out_of_range:
  "(int (length points) < k \<or> k < 0 \<longrightarrow> generateCombinations points k = []) \<and>
   generateCombinations points 0 = [[]]"
proof -
  have "generateCombinations points k = []" if "int (length points) < k"
  proof -
    have "0 \<le> k" "length points < nat k" using that by auto
    then show ?thesis by (simp add: generateCombinations_combs combs_too_many)
  qed
  moreover have "generateCombinations points 0 = [[]]"
    by (simp add: generateCombinations_combs)
  ultimately show ?thesis using generateCombinations_negative by blast
qed

theorem generateCombinations_out_of_range_witness:
  "int (length ''ab'') < 3 \<and> generateCombinations ''ab'' 3 = [] \<and>
   (-1 :: int) < 0 \<and> generateCombinations ''ab'' (-1) = []"
  using generateCombinations_out_of_range [of "''ab''" 3]
    generateCombinations_out_of_range [of "''ab''" "-1"]
  by simp

text \<open>
  Claim C4 as stated fails: with \<open>k = 0\<close>, and with \<open>k\<close> above the number of points, the
  enumeration returns a list and raises nothing.
\<close>

theorem generateCombinations_k0_counterexample:
  "generateCombinations [Point 1 5, Point 2 7] 0 = [[]] \<and>
   generateCombinations [Point 1 5, Point 2 7] 3 = []"
  by (simp add: generateCombinations_def backtrack.simps upt_rec)

section \<open>Properties of the recovery\<close>

lemma map_of_mapSet: "map_of (mapSet m k v) = (map_of m)(k \<mapsto> v)"
  by (induction m k v rule: mapSet.induct) auto

lemma keys_mapSet:
  "map fst (mapSet m k v) = (if k \<in> set (map fst m) then map fst m else map fst m @ [k])"
  by (induction m k v rule: mapSet.induct) auto

lemma mapSet_not_Nil: "mapSet m k v \<noteq> []"
  by (induction m k v rule: mapSet.induct) auto

lemma tally_snoc: "tally (cs @ [c]) = countSecret c (tally cs)"
  by (simp add: tally_def)

lemma fold_tallyStep:
  "fold tallyStep cbs m =
     fold countSecret (concat (map (\<lambda>c. case candidate c of Inl e \<Rightarrow> [] | Inr s \<Rightarrow> [s]) cbs)) m"
  by (induction cbs arbitrary: m) (auto simp: tallyStep_def split: sum.splits)

lemma secretFrequencyMap_tally: "secretFrequencyMap allRoots k = tally (candidates allRoots k)"
  by (simp add: secretFrequencyMap_def tally_def candidates_def fold_tallyStep)

lemma map_of_tally:
  "map_of (tally cs) s = (if s \<in> set cs then Some (count_list cs s) else None)"
proof (induction cs rule: rev_induct)
  case Nil
  then show ?case by (simp add: tally_def)
next
  case (snoc c cs)
  then show ?case by (auto simp: tally_snoc countSecret_def map_of_mapSet)
qed

lemma keys_tally: "map fst (tally cs) = rev (remdups (rev cs))"
proof (induction cs rule: rev_induct)
  case Nil
  then show ?case by (simp add: tally_def)
next
  case (snoc c cs)
  then show ?case by (auto simp: tally_snoc countSecret_def keys_mapSet)
qed

lemma distinct_keys_tally: "distinct (map fst (tally cs))"
  by (simp add: keys_tally)

lemma tally_entry:
  assumes "(s, n) \<in> set (tally cs)"
  shows "s \<in> set cs \<and> n = count_list cs s"
proof -
  have "map_of (tally cs) s = Some n"
    using assms distinct_keys_tally by (simp add: map_of_eq_Some_iff)
  then show ?thesis by (auto simp: map_of_tally split: if_splits)
qed

lemma tally_Nil_iff: "tally cs = [] \<longleftrightarrow> cs = []"
proof (cases cs rule: rev_cases)
  case Nil
  then show ?thesis by (simp add: tally_def)
next
  case (snoc ys y)
  then show ?thesis by (simp add: tally_snoc countSecret_def mapSet_not_Nil)
qed

lemma foldl_most_frequent:
  fixes acc :: "int \<times> nat"
  assumes "\<forall>a\<in>set pre. snd a < snd acc" and "\<forall>a\<in>set mid. snd a \<le> snd acc"
  shows "\<exists>pre' post'.
           pre @ acc # mid @ xs =
             pre' @ foldl (\<lambda>mostFrequent current.
                              if snd current > snd mostFrequent then current else mostFrequent) acc xs # post'
         \<and> (\<forall>a\<in>set pre'. snd a < snd (foldl (\<lambda>mostFrequent current.
                              if snd current > snd mostFrequent then current else mostFrequent) acc xs))
         \<and> (\<forall>a\<in>set post'. snd a \<le> snd (foldl (\<lambda>mostFrequent current.
                              if snd current > snd mostFrequent then current else mostFrequent) acc xs))"
  using assms
proof (induction xs arbitrary: pre acc mid)
  case Nil
  then show ?case by auto
next
  case (Cons x xs)
  show ?case
  proof (cases "snd x > snd acc")
    case True
    have "\<forall>a\<in>set (pre @ acc # mid). snd a < snd x" using Cons.prems True by fastforce
    moreover have "\<forall>a\<in>set []. snd a \<le> snd x" by simp
    ultimately show ?thesis
      using Cons.IH [of "pre @ acc # mid" x "[]"] True by simp
  next
    case False
    have "\<forall>a\<in>set (mid @ [x]). snd a \<le> snd acc" using Cons.prems False by auto
    then show ?thesis
      using Cons.IH [of pre acc "mid @ [x]"] Cons.prems(1) False by simp
  qed
qed

lemma mostFrequentEntry_split:
  assumes "entries \<noteq> []"
  shows "\<exists>pre post. entries = pre @ mostFrequentEntry entries # post
           \<and> (\<forall>a\<in>set pre. snd a < snd (mostFrequentEntry entries))
           \<and> (\<forall>a\<in>set post. snd a \<le> snd (mostFrequentEntry entries))"
proof -
  from assms obtain e es where e: "entries = e # es" by (cases entries) auto
  show ?thesis
    using foldl_most_frequent [of "[]" e "[]" es] by (simp add: e mostFrequentEntry_def)
qed

lemma first_occurrence_order:
  "rev (remdups (rev cs)) = A @ s # B \<Longrightarrow> set (takeWhile (\<lambda>c. c \<noteq> s) cs) \<subseteq> set A"
proof (induction cs arbitrary: A B rule: rev_induct)
  case Nil
  then show ?case by simp
next
  case (snoc x cs)
  show ?case
  proof (cases "s \<in> set cs")
    case True
    then have tw: "takeWhile (\<lambda>c. c \<noteq> s) (cs @ [x]) = takeWhile (\<lambda>c. c \<noteq> s) cs"
      by (simp add: takeWhile_append1)
    show ?thesis
    proof (cases "x \<in> set cs")
      case True
      then have "rev (remdups (rev cs)) = A @ s # B" using snoc.prems by simp
      then show ?thesis using snoc.IH tw by simp
    next
      case False
      then have eq: "rev (remdups (rev cs)) @ [x] = A @ s # B" using snoc.prems by simp
      have "x \<noteq> s" using False \<open>s \<in> set cs\<close> by auto
      then obtain B' where "B = B' @ [x]" using eq
        by (cases B rule: rev_cases) auto
      then have "rev (remdups (rev cs)) = A @ s # B'" using eq by simp
      then show ?thesis using snoc.IH tw by simp
    qed
  next
    case False
    have "s \<in> set (rev (remdups (rev (cs @ [x]))))" using snoc.prems by simp
    then have "s \<in> set (cs @ [x])" by (simp only: set_rev set_remdups)
    then have sx: "s = x" using False by auto
    then have eq: "rev (remdups (rev cs)) @ [x] = A @ x # B" using snoc.prems False by simp
    have nx: "x \<notin> set (rev (remdups (rev cs)))" using False sx by simp
    have "A = rev (remdups (rev cs))"
    proof (cases B rule: rev_cases)
      case Nil
      then show ?thesis using eq by simp
    next
      case (snoc B' b)
      then have "rev (remdups (rev cs)) @ [x] = (A @ x # B') @ [b]" using eq by simp
      then have "rev (remdups (rev cs)) = A @ x # B'" by (simp only: append1_eq_conv)
      then show ?thesis using nx by simp
    qed
    then have "set A = set cs" by simp
    moreover have "takeWhile (\<lambda>c. c \<noteq> s) (cs @ [x]) = cs"
    proof -
      have "\<And>c. c \<in> set cs \<Longrightarrow> c \<noteq> s" using False by auto
      then have "takeWhile (\<lambda>c. c \<noteq> s) (cs @ [x]) = cs @ takeWhile (\<lambda>c. c \<noteq> s) [x]"
        by (rule takeWhile_append2)
      then show ?thesis using sx by simp
    qed
    ultimately show ?thesis by simp
  qed
qed


lemma count_candidates:
  "count_list (concat (map (\<lambda>c. case candidate c of Inl e \<Rightarrow> [] | Inr s \<Rightarrow> [s]) cbs)) s =
     length (filter (\<lambda>c. candidate c = Inr s) cbs)"
  by (induction cbs) (auto split: sum.splits)

lemma candidates_Nil_iff:
  "candidates allRoots k = [] \<longleftrightarrow> (\<forall>c\<in>set (generateCombinations allRoots k). isl (candidate c))"
proof -
  have "isl x \<longleftrightarrow> (\<forall>s. x \<noteq> Inr s)" for x :: "error + int" by (cases x) auto
  then show ?thesis by (auto simp: candidates_def split: sum.splits)
qed

lemma length_candidates: "length (candidates allRoots k) \<le> length (generateCombinations allRoots k)"
proof -
  have "length (concat (map (\<lambda>c. case candidate c of Inl e \<Rightarrow> [] | Inr s \<Rightarrow> [s]) cbs)) \<le> length cbs"
    for cbs
    by (induction cbs) (auto split: sum.splits)
  then show ?thesis by (simp add: candidates_def)
qed

lemma findSecret_unfold:
  "findSecretWithMinimumRoots allRoots k =
     (if candidates allRoots k = [] then Inl NoValidSecrets
      else Inr \<lparr> secret = fst (mostFrequentEntry (tally (candidates allRoots k))),
                 frequency = the (map_of (tally (candidates allRoots k))
                                    (fst (mostFrequentEntry (tally (candidates allRoots k))))),
                 totalCombinations = length (generateCombinations allRoots k) \<rparr>)"
  using secretFrequencyMap_tally [of allRoots k]
  by (simp add: findSecretWithMinimumRoots_def Let_def secretFrequencyMap_def tally_Nil_iff)

lemma findSecret_result:
  assumes "findSecretWithMinimumRoots allRoots k = Inr r"
  shows "\<exists>pre post. tally (candidates allRoots k) = pre @ (secret r, frequency r) # post
           \<and> (\<forall>a\<in>set pre. snd a < frequency r) \<and> (\<forall>a\<in>set post. snd a \<le> frequency r)"
    and "totalCombinations r = length (generateCombinations allRoots k)"
proof -
  let ?m = "tally (candidates allRoots k)"
  let ?e = "mostFrequentEntry ?m"
  from assms have ne: "candidates allRoots k \<noteq> []" and
    r: "r = \<lparr> secret = fst ?e, frequency = the (map_of ?m (fst ?e)),
              totalCombinations = length (generateCombinations allRoots k) \<rparr>"
    by (auto simp: findSecret_unfold split: if_splits)
  then have "?m \<noteq> []" by (simp add: tally_Nil_iff)
  then obtain pre post where s: "?m = pre @ ?e # post"
    "\<forall>a\<in>set pre. snd a < snd ?e" "\<forall>a\<in>set post. snd a \<le> snd ?e"
    using mostFrequentEntry_split by blast
  have "(fst ?e, snd ?e) \<in> set ?m" by (subst s(1)) simp
  then have "map_of ?m (fst ?e) = Some (snd ?e)"
    using distinct_keys_tally by (simp add: map_of_eq_Some_iff)
  then have f: "frequency r = snd ?e" and sr: "secret r = fst ?e" using r by simp_all
  show "\<exists>pre post. ?m = pre @ (secret r, frequency r) # post
           \<and> (\<forall>a\<in>set pre. snd a < frequency r) \<and> (\<forall>a\<in>set post. snd a \<le> frequency r)"
    using s f sr by (metis prod.collapse)
  show "totalCombinations r = length (generateCombinations allRoots k)" using r by simp
qed

text \<open>
  Claim C10: when the recovery succeeds, \<open>1 \<le> frequency \<le> totalCombinations\<close>, the
  frequency is the count that the tally holds for the returned secret, and no candidate of
  the tally has a greater count.
\<close>

theorem findSecret_frequency_bounds:
  assumes "findSecretWithMinimumRoots allRoots k = Inr r"
  shows "1 \<le> frequency r \<and> frequency r \<le> totalCombinations r \<and>
         map_of (secretFrequencyMap allRoots k) (secret r) = Some (frequency r) \<and>
         (\<forall>(c, n) \<in> set (secretFrequencyMap allRoots k). n \<le> frequency r)"
proof -
  let ?cs = "candidates allRoots k"
  obtain pre post where s: "tally ?cs = pre @ (secret r, frequency r) # post"
    "\<forall>a\<in>set pre. snd a < frequency r" "\<forall>a\<in>set post. snd a \<le> frequency r"
    using findSecret_result(1) [OF assms] by blast
  have mem: "(secret r, frequency r) \<in> set (tally ?cs)" by (subst s(1)) simp
  then have e: "secret r \<in> set ?cs" "frequency r = count_list ?cs (secret r)"
    using tally_entry by blast+
  have "count_list ?cs (secret r) \<noteq> 0" using e(1) by (simp add: count_list_0_iff)
  then have 1: "1 \<le> frequency r" using e(2) by simp
  have "count_list ?cs (secret r) \<le> length ?cs" by (rule count_le_length)
  then have 2: "frequency r \<le> totalCombinations r"
    using e(2) length_candidates [of allRoots k] findSecret_result(2) [OF assms] by simp
  have 3: "map_of (secretFrequencyMap allRoots k) (secret r) = Some (frequency r)"
    using mem distinct_keys_tally by (simp add: secretFrequencyMap_tally map_of_eq_Some_iff)
  have 4: "\<forall>(c, n) \<in> set (secretFrequencyMap allRoots k). n \<le> frequency r"
    unfolding secretFrequencyMap_tally s(1) using s(2,3) by fastforce
  show ?thesis using 1 2 3 4 by blast
qed

theorem findSecret_frequency_bounds_witness:
  "findSecretWithMinimumRoots [Point 1 5, Point 2 7, Point 3 5] 1
     = Inr \<lparr> secret = 5, frequency = 2, totalCombinations = 3 \<rparr> \<and>
   secretFrequencyMap [Point 1 5, Point 2 7, Point 3 5] 1 = [(5, 2), (7, 1)] \<and>
   (1::nat) \<le> 2 \<and> (2::nat) \<le> 3"
proof -
  have r: "findSecretWithMinimumRoots [Point 1 5, Point 2 7, Point 3 5] 1
     = Inr \<lparr> secret = 5, frequency = 2, totalCombinations = 3 \<rparr>"
    by code_simp
  have m: "secretFrequencyMap [Point 1 5, Point 2 7, Point 3 5] 1 = [(5, 2), (7, 1)]"
    by code_simp
  show ?thesis using findSecret_frequency_bounds [OF r] r m by simp
qed

text \<open>
  Claim C3: when the recovery succeeds, the returned secret is a candidate of the tally, and
  every other candidate of the tally either has a strictly smaller count or, when it shares
  the maximum count, was not produced by any subset that comes before the first subset that
  produced the returned secret: among the candidates with the maximum count, the returned
  one is the one that the enumeration order reaches first.
\<close>

theorem findSecret_majority_first:
  assumes "findSecretWithMinimumRoots allRoots k = Inr r"
  shows "secret r \<in> set (candidates allRoots k) \<and>
         (secret r, frequency r) \<in> set (secretFrequencyMap allRoots k) \<and>
         (\<forall>(c, n) \<in> set (secretFrequencyMap allRoots k). c \<noteq> secret r \<longrightarrow>
            n < frequency r \<or>
            (n = frequency r \<and>
             c \<notin> set (takeWhile (\<lambda>d. d \<noteq> secret r) (candidates allRoots k))))"
proof -
  let ?cs = "candidates allRoots k"
  obtain pre post where s: "tally ?cs = pre @ (secret r, frequency r) # post"
    "\<forall>a\<in>set pre. snd a < frequency r" "\<forall>a\<in>set post. snd a \<le> frequency r"
    using findSecret_result(1) [OF assms] by blast
  have mem: "(secret r, frequency r) \<in> set (tally ?cs)" by (subst s(1)) simp
  then have 1: "secret r \<in> set ?cs" using tally_entry by blast
  have keys: "rev (remdups (rev ?cs)) = map fst pre @ secret r # map fst post"
    using keys_tally [of ?cs] s(1) by simp
  have before: "set (takeWhile (\<lambda>d. d \<noteq> secret r) ?cs) \<subseteq> set (map fst pre)"
    using keys by (rule first_occurrence_order)
  have d: "distinct (map fst pre @ secret r # map fst post)"
    using distinct_keys_tally [of ?cs] s(1) by simp
  have 3: "n < frequency r \<or>
            (n = frequency r \<and> c \<notin> set (takeWhile (\<lambda>d. d \<noteq> secret r) ?cs))"
    if cn: "(c, n) \<in> set (tally ?cs)" and ne: "c \<noteq> secret r" for c n
  proof (cases "(c, n) \<in> set pre")
    case True
    then show ?thesis using s(2) by fastforce
  next
    case False
    then have p: "(c, n) \<in> set post" using cn ne s(1) by auto
    then have le: "n \<le> frequency r" using s(3) by fastforce
    have "c \<in> set (map fst post)" using p by force
    then have "c \<notin> set (map fst pre)" using d by auto
    then have "c \<notin> set (takeWhile (\<lambda>d. d \<noteq> secret r) ?cs)" using before by blast
    then show ?thesis using le by auto
  qed
  show ?thesis using 1 mem 3 by (auto simp: secretFrequencyMap_tally)
qed

theorem findSecret_majority_first_witness:
  "findSecretWithMinimumRoots [Point 1 5, Point 1 7, Point 2 9] 2
     = Inr \<lparr> secret = 1, frequency = 1, totalCombinations = 3 \<rparr> \<and>
   candidates [Point 1 5, Point 1 7, Point 2 9] 2 = [1, 5] \<and>
   secretFrequencyMap [Point 1 5, Point 1 7, Point 2 9] 2 = [(1, 1), (5, 1)]"
proof -
  have r: "findSecretWithMinimumRoots [Point 1 5, Point 1 7, Point 2 9] 2
     = Inr \<lparr> secret = 1, frequency = 1, totalCombinations = 3 \<rparr>"
    by code_simp
  have c: "candidates [Point 1 5, Point 1 7, Point 2 9] 2 = [1, 5]"
    by code_simp
  have m: "secretFrequencyMap [Point 1 5, Point 1 7, Point 2 9] 2 = [(1, 1), (5, 1)]"
    by code_simp
  show ?thesis using findSecret_majority_first [OF r] r c m by simp
qed

text \<open>
  Claim C8: a subset whose interpolation throws (or gives no constant term) is skipped. The
  tally is the one that the subsets without the failed ones give, so the subsets after a
  failed one are still processed, and the count of a secret is the number of subsets that
  produced it. The recovery fails exactly when the tally is empty, which is when every
  subset failed, and then with \<open>NoValidSecrets\<close>: no error of a subset reaches the caller.
\<close>

theorem findSecret_skips_failed_subsets:
  "(\<forall>c. isl (candidate c) \<longleftrightarrow>
        isl (performLagrangeInterpolation c) \<or> performLagrangeInterpolation c = Inr []) \<and>
   secretFrequencyMap allRoots k =
     fold tallyStep (filter (\<lambda>c. \<not> isl (candidate c)) (generateCombinations allRoots k)) [] \<and>
   (\<forall>s. map_of (secretFrequencyMap allRoots k) s =
      (if \<exists>c\<in>set (generateCombinations allRoots k). candidate c = Inr s
       then Some (length (filter (\<lambda>c. candidate c = Inr s) (generateCombinations allRoots k)))
       else None)) \<and>
   (findSecretWithMinimumRoots allRoots k = Inl NoValidSecrets \<longleftrightarrow>
      secretFrequencyMap allRoots k = []) \<and>
   (secretFrequencyMap allRoots k = [] \<longleftrightarrow>
      (\<forall>c\<in>set (generateCombinations allRoots k). isl (candidate c))) \<and>
   (\<forall>e. findSecretWithMinimumRoots allRoots k = Inl e \<longrightarrow> e = NoValidSecrets)"
proof -
  let ?cbs = "generateCombinations allRoots k"
  have 0: "\<forall>c. isl (candidate c) \<longleftrightarrow>
        isl (performLagrangeInterpolation c) \<or> performLagrangeInterpolation c = Inr []"
    by (auto simp: candidate_def split: sum.splits list.splits)
  have skip: "fold tallyStep cbs m = fold tallyStep (filter (\<lambda>c. \<not> isl (candidate c)) cbs) m"
    for cbs m
    by (induction cbs arbitrary: m) (auto simp: tallyStep_def split: sum.splits)
  have 1: "secretFrequencyMap allRoots k = fold tallyStep (filter (\<lambda>c. \<not> isl (candidate c)) ?cbs) []"
    unfolding secretFrequencyMap_def by (rule skip)
  have "s \<in> set (concat (map (\<lambda>c. case candidate c of Inl e \<Rightarrow> [] | Inr s \<Rightarrow> [s]) cbs))
           \<longleftrightarrow> (\<exists>c\<in>set cbs. candidate c = Inr s)" for s cbs
    by (induction cbs) (auto split: sum.splits)
  then have mem: "s \<in> set (candidates allRoots k) \<longleftrightarrow> (\<exists>c\<in>set ?cbs. candidate c = Inr s)" for s
    by (simp add: candidates_def)
  have 2: "\<forall>s. map_of (secretFrequencyMap allRoots k) s =
      (if \<exists>c\<in>set ?cbs. candidate c = Inr s
       then Some (length (filter (\<lambda>c. candidate c = Inr s) ?cbs)) else None)"
    using mem by (simp add: secretFrequencyMap_tally map_of_tally candidates_def count_candidates)
  have 3: "findSecretWithMinimumRoots allRoots k = Inl NoValidSecrets \<longleftrightarrow>
      secretFrequencyMap allRoots k = []"
    by (simp add: findSecret_unfold secretFrequencyMap_tally tally_Nil_iff)
  have 4: "secretFrequencyMap allRoots k = [] \<longleftrightarrow> (\<forall>c\<in>set ?cbs. isl (candidate c))"
    by (simp add: secretFrequencyMap_tally tally_Nil_iff candidates_Nil_iff)
  have 5: "\<forall>e. findSecretWithMinimumRoots allRoots k = Inl e \<longrightarrow> e = NoValidSecrets"
    by (simp add: findSecret_unfold)
  show ?thesis using 0 1 2 3 4 5 by blast
qed

theorem findSecret_skips_failed_subsets_witness:
  "performLagrangeInterpolation [Point 1 5, Point 1 7] = Inl RangeError \<and>
   generateCombinations [Point 1 5, Point 1 7, Point 2 9] 2 =
     [[Point 1 5, Point 1 7], [Point 1 5, Point 2 9], [Point 1 7, Point 2 9]] \<and>
   secretFrequencyMap [Point 1 5, Point 1 7, Point 2 9] 2 = [(1, 1), (5, 1)] \<and>
   findSecretWithMinimumRoots [Point 1 5, Point 1 7] 2 = Inl NoValidSecrets \<and>
   secretFrequencyMap [Point 1 5, Point 1 7] 2 = []"
proof -
  have a: "performLagrangeInterpolation [Point 1 5, Point 1 7] = Inl RangeError" by code_simp
  have b: "generateCombinations [Point 1 5, Point 1 7, Point 2 9] 2 =
     [[Point 1 5, Point 1 7], [Point 1 5, Point 2 9], [Point 1 7, Point 2 9]]" by code_simp
  have c: "secretFrequencyMap [Point 1 5, Point 1 7, Point 2 9] 2 = [(1, 1), (5, 1)]" by code_simp
  have d: "secretFrequencyMap [Point 1 5, Point 1 7] 2 = []" by code_simp
  have "findSecretWithMinimumRoots [Point 1 5, Point 1 7] 2 = Inl NoValidSecrets"
    using findSecret_skips_failed_subsets [of "[Point 1 5, Point 1 7]" 2] d by blast
  then show ?thesis using a b c d by blast
qed

section \<open>Properties of the interpolation\<close>

lemma foldE_append:
  "foldE f (xs @ ys) s = (case foldE f xs s of Inl e \<Rightarrow> Inl e | Inr s' \<Rightarrow> foldE f ys s')"
  by (induction xs arbitrary: s) (auto split: sum.splits)

lemma mul_loop_nth:
  assumes "m \<le> n - 1" and "idx < n"
  shows "length (fold (mulStep b xj) [0 ..< m] (replicate n 0)) = n \<and>
         fold (mulStep b xj) [0 ..< m] (replicate n 0) ! idx =
           (if idx < m then b ! idx * (- xj) else if idx = m \<and> 0 < m then b ! (m - 1) else 0)"
  using assms
proof (induction m arbitrary: idx)
  case 0
  then show ?case by simp
next
  case (Suc m)
  define t where "t = fold (mulStep b xj) [0 ..< m] (replicate n 0)"
  have len: "length t = n" using Suc.IH [of idx] Suc.prems by (simp add: t_def)
  have nth: "t ! j = (if j < m then b ! j * (- xj) else if j = m \<and> 0 < m then b ! (m - 1) else 0)"
    if "j < n" for j
    using Suc.IH [of j] Suc.prems that by (simp add: t_def)
  have step: "fold (mulStep b xj) [0 ..< Suc m] (replicate n 0) = (t[m + 1 := b ! m])[m := b ! m * (- xj)]"
    by (simp add: t_def mulStep_def)
  have m1: "m + 1 < n" "m < n" using Suc.prems by auto
  show ?case
    unfolding step using len m1 Suc.prems(2) nth [OF Suc.prems(2)]
    by (auto simp: nth_list_update)
qed

lemma multiplyByLinear_nth:
  assumes "idx < n"
  shows "length (multiplyByLinear n b xj) = n"
    and "multiplyByLinear n b xj ! idx =
           (if idx < n - 1 then b ! idx * (- xj) else if 1 < n then b ! (n - 2) else 0)"
proof -
  have *: "length (fold (mulStep b xj) [0 ..< n - 1] (replicate n 0)) = n \<and>
         fold (mulStep b xj) [0 ..< n - 1] (replicate n 0) ! idx =
           (if idx < n - 1 then b ! idx * (- xj) else if idx = n - 1 \<and> 0 < n - 1 then b ! (n - 1 - 1) else 0)"
    using assms by (intro mul_loop_nth) simp_all
  show "length (multiplyByLinear n b xj) = n" using * by (simp add: multiplyByLinear_def)
  have "idx = n - 1" if "\<not> idx < n - 1" using that assms by simp
  then show "multiplyByLinear n b xj ! idx =
           (if idx < n - 1 then b ! idx * (- xj) else if 1 < n then b ! (n - 2) else 0)"
    using * by (auto simp: multiplyByLinear_def numeral_2_eq_2)
qed

lemma basis_fold:
  assumes "1 \<le> n" and "length os \<le> n - 1"
  shows "fold (\<lambda>xj b. multiplyByLinear n b xj) os ((replicate n 0)[0 := 1]) =
           map (basisCoeff n os) [0 ..< n]"
  using assms(2)
proof (induction os rule: rev_induct)
  case Nil
  show ?case
    by (rule nth_equalityI) (use assms(1) in \<open>auto simp: basisCoeff_def nth_list_update\<close>)
next
  case (snoc x os)
  then have ih: "fold (\<lambda>xj b. multiplyByLinear n b xj) os ((replicate n 0)[0 := 1]) =
           map (basisCoeff n os) [0 ..< n]"
    by simp
  have n2: "2 \<le> n" using snoc.prems by simp
  have "multiplyByLinear n (map (basisCoeff n os) [0 ..< n]) x = map (basisCoeff n (os @ [x])) [0 ..< n]"
  proof (rule nth_equalityI)
    show "length (multiplyByLinear n (map (basisCoeff n os) [0 ..< n]) x)
            = length (map (basisCoeff n (os @ [x])) [0 ..< n])"
      using n2 multiplyByLinear_nth(1) [of 0 n] by simp
  next
    fix idx assume "idx < length (multiplyByLinear n (map (basisCoeff n os) [0 ..< n]) x)"
    then have idx: "idx < n" using n2 multiplyByLinear_nth(1) [of 0 n] by simp
    have os: "n = 2 \<Longrightarrow> os = []" using snoc.prems by simp
    show "multiplyByLinear n (map (basisCoeff n os) [0 ..< n]) x ! idx
            = map (basisCoeff n (os @ [x])) [0 ..< n] ! idx"
      using idx n2 os
      by (auto simp: multiplyByLinear_nth(2) [OF idx] basisCoeff_def)
  qed
  then show ?case using ih by simp
qed


lemma fold_if_filter:
  "fold (\<lambda>j s. if P j then f j s else s) js s = fold f (filter P js) s"
  by (induction js arbitrary: s) simp_all

lemma fold_pair:
  "fold (\<lambda>x (b, d). (f x b, g x d)) xs (b0, d0) = (fold f xs b0, fold g xs d0)"
  by (induction xs arbitrary: b0 d0) simp_all

lemma fold_times: "fold (\<lambda>x (d::int). d * f x) xs a = a * prod_list (map f xs)"
  by (induction xs arbitrary: a) (simp_all add: mult.assoc)

lemma filter_neq_upt:
  assumes "i < n"
  shows "filter (\<lambda>j. i \<noteq> j) [0 ..< n] = [0 ..< i] @ [Suc i ..< n]"
proof -
  have "[0 ..< n] = [0 ..< i] @ i # [Suc i ..< n]"
    using assms by (metis le_add1 less_imp_add_positive upt_add_eq_append upt_conv_Cons plus_nat.add_0)
  moreover have "filter (\<lambda>j. i \<noteq> j) [0 ..< i] = [0 ..< i]" by (rule filter_True) auto
  moreover have "filter (\<lambda>j. i \<noteq> j) [Suc i ..< n] = [Suc i ..< n]" by (rule filter_True) auto
  ultimately show ?thesis by simp
qed

lemma map_nth_others:
  assumes "i < length pts"
  shows "map (\<lambda>j. px (pts ! j)) (filter (\<lambda>j. i \<noteq> j) [0 ..< length pts]) = others pts i"
proof -
  have a: "map (nth pts) [0 ..< i] = take i pts"
    using assms by (metis less_imp_le_nat map_nth take_map take_upt plus_nat.add_0)
  have b: "map (nth pts) [Suc i ..< length pts] = drop (Suc i) pts"
    by (metis drop_map drop_upt map_nth plus_nat.add_0 add.commute add_0)
  have "map (\<lambda>j. px (pts ! j)) (filter (\<lambda>j. i \<noteq> j) [0 ..< length pts])
          = map px (map (nth pts) ([0 ..< i] @ [Suc i ..< length pts]))"
    using assms by (simp add: filter_neq_upt comp_def)
  then show ?thesis using a b by (simp add: others_def)
qed

lemma buildBasis_closed:
  assumes "i < length pts"
  shows "buildBasis pts i = (map (basisCoeff (length pts) (others pts i)) [0 ..< length pts],
                             weightDen pts i)"
proof -
  let ?n = "length pts"
  let ?step = "\<lambda>xj (b, d). (multiplyByLinear ?n b xj, d * (px (pts ! i) - xj))"
  have s: "basisStep pts i = (\<lambda>j s. if i \<noteq> j then ?step (px (pts ! j)) s else s)"
    by (rule ext)+ (auto simp: basisStep_def)
  have "buildBasis pts i =
     fold (\<lambda>j. ?step (px (pts ! j))) (filter (\<lambda>j. i \<noteq> j) [0 ..< ?n]) ((replicate ?n 0)[0 := 1], 1)"
    unfolding buildBasis_def s by (rule fold_if_filter)
  also have "\<dots> = fold ?step (map (\<lambda>j. px (pts ! j)) (filter (\<lambda>j. i \<noteq> j) [0 ..< ?n]))
                     ((replicate ?n 0)[0 := 1], 1)"
    by (simp add: fold_map comp_def)
  also have "\<dots> = fold ?step (others pts i) ((replicate ?n 0)[0 := 1], 1)"
    using assms by (simp add: map_nth_others)
  also have "\<dots> = (fold (\<lambda>xj b. multiplyByLinear ?n b xj) (others pts i) ((replicate ?n 0)[0 := 1]),
                    fold (\<lambda>xj d. d * (px (pts ! i) - xj)) (others pts i) 1)"
    by (rule fold_pair)
  also have "fold (\<lambda>xj b. multiplyByLinear ?n b xj) (others pts i) ((replicate ?n 0)[0 := 1])
       = map (basisCoeff ?n (others pts i)) [0 ..< ?n]"
    using assms by (intro basis_fold) (simp_all add: others_def)
  also have "fold (\<lambda>xj d. d * (px (pts ! i) - xj)) (others pts i) 1 = weightDen pts i"
    by (simp add: fold_times weightDen_def)
  finally show ?thesis .
qed


lemma acc_loop_ok:
  assumes "d \<noteq> 0" and "length cs = n" and "m \<le> n"
  shows "foldE (accStep y b d) [0 ..< m] cs =
           Inr (map (\<lambda>k. if k < m then cs ! k + (y * b ! k) sdiv d else cs ! k) [0 ..< n])"
  using assms(3)
proof (induction m)
  case 0
  have "map ((!) cs) [0 ..< length cs] = cs" by (rule map_nth)
  then show ?case using assms(2) by simp
next
  case (Suc m)
  let ?c = "map (\<lambda>k. if k < m then cs ! k + (y * b ! k) sdiv d else cs ! k) [0 ..< n]"
  have ih: "foldE (accStep y b d) [0 ..< m] cs = Inr ?c" using Suc by simp
  have m: "m < n" using Suc.prems by simp
  have "accStep y b d m ?c = Inr (?c[m := ?c ! m + (y * b ! m) sdiv d])"
    using assms(1) by (simp add: accStep_def bigint_div_def)
  moreover have "?c[m := ?c ! m + (y * b ! m) sdiv d] =
      map (\<lambda>k. if k < Suc m then cs ! k + (y * b ! k) sdiv d else cs ! k) [0 ..< n]"
    by (rule nth_equalityI) (use m in \<open>auto simp: nth_list_update less_Suc_eq\<close>)
  ultimately show ?case using ih by (simp add: foldE_append)
qed

lemma acc_loop_zero:
  assumes "0 < n"
  shows "foldE (accStep y b 0) [0 ..< n] cs = Inl RangeError"
proof -
  have "[0 ..< n] = 0 # [1 ..< n]" using assms by (simp add: upt_conv_Cons)
  then show ?thesis by (simp add: accStep_def bigint_div_def)
qed

lemma pointStep_closed:
  assumes "i < length pts" and "length cs = length pts"
  shows "pointStep pts i cs =
           (if weightDen pts i = 0 then Inl RangeError
            else Inr (map (\<lambda>k. cs ! k + (py (pts ! i) * basisCoeff (length pts) (others pts i) k)
                                            sdiv weightDen pts i) [0 ..< length pts]))"
proof (cases "weightDen pts i = 0")
  case True
  have "0 < length pts" using assms(1) by (cases pts) auto
  then have "foldE (accStep (py (pts ! i)) (map (basisCoeff (length pts) (others pts i)) [0 ..< length pts]) 0)
                 [0 ..< length pts] cs = Inl RangeError"
    by (rule acc_loop_zero)
  then show ?thesis using assms(1) True by (simp add: pointStep_def buildBasis_closed)
next
  case False
  have "foldE (accStep (py (pts ! i)) (map (basisCoeff (length pts) (others pts i)) [0 ..< length pts])
                 (weightDen pts i)) [0 ..< length pts] cs =
        Inr (map (\<lambda>k. if k < length pts
                        then cs ! k + (py (pts ! i) * map (basisCoeff (length pts) (others pts i)) [0 ..< length pts] ! k)
                                         sdiv weightDen pts i
                        else cs ! k) [0 ..< length pts])"
    using False assms(2) by (intro acc_loop_ok) simp_all
  then show ?thesis using False assms by (simp add: pointStep_def buildBasis_closed cong: map_cong)
qed

lemma point_loop_closed:
  assumes "m \<le> length pts"
  shows "foldE (pointStep pts) [0 ..< m] (replicate (length pts) 0) =
           (if \<exists>i<m. weightDen pts i = 0 then Inl RangeError
            else Inr (map (\<lambda>k. \<Sum>i<m. (py (pts ! i) * basisCoeff (length pts) (others pts i) k)
                                            sdiv weightDen pts i) [0 ..< length pts]))"
  using assms
proof (induction m)
  case 0
  show ?case by (simp add: map_replicate_const)
next
  case (Suc m)
  then have m: "m < length pts" by simp
  show ?case
  proof (cases "\<exists>i<m. weightDen pts i = 0")
    case True
    then have "\<exists>i<Suc m. weightDen pts i = 0" using less_Suc_eq by auto
    moreover have "foldE (pointStep pts) [0 ..< m] (replicate (length pts) 0) = Inl RangeError"
      using Suc True by simp
    ultimately show ?thesis by (simp add: foldE_append)
  next
    case False
    let ?c = "map (\<lambda>k. \<Sum>i<m. (py (pts ! i) * basisCoeff (length pts) (others pts i) k)
                                            sdiv weightDen pts i) [0 ..< length pts]"
    have ih: "foldE (pointStep pts) [0 ..< m] (replicate (length pts) 0) = Inr ?c"
      using Suc False by simp
    have ex: "(\<exists>i<Suc m. weightDen pts i = 0) \<longleftrightarrow> weightDen pts m = 0"
      using False less_Suc_eq by auto
    have "pointStep pts m ?c =
           (if weightDen pts m = 0 then Inl RangeError
            else Inr (map (\<lambda>k. ?c ! k + (py (pts ! m) * basisCoeff (length pts) (others pts m) k)
                                            sdiv weightDen pts m) [0 ..< length pts]))"
      using m by (intro pointStep_closed) simp_all
    then show ?thesis using ih ex by (simp add: foldE_append cong: map_cong)
  qed
qed

lemma performLagrangeInterpolation_closed:
  "performLagrangeInterpolation pts =
     (if \<exists>i<length pts. weightDen pts i = 0 then Inl RangeError
      else Inr (map (\<lambda>k. \<Sum>i<length pts. (py (pts ! i) * basisCoeff (length pts) (others pts i) k)
                                            sdiv weightDen pts i) [0 ..< length pts]))"
  unfolding performLagrangeInterpolation_def by (rule point_loop_closed) simp


lemma mset_others:
  assumes "i < length pts"
  shows "mset (others pts i) = image_mset px (mset pts - {#pts ! i#})"
proof -
  have "pts = take i pts @ pts ! i # drop (Suc i) pts" using assms by (rule id_take_nth_drop)
  then have "mset pts = mset (take i pts @ drop (Suc i) pts) + {#pts ! i#}"
    by (metis mset.simps(2) mset_append union_mset_add_mset_right add_mset_add_single)
  then have "mset (take i pts @ drop (Suc i) pts) = mset pts - {#pts ! i#}" by simp
  then show ?thesis unfolding others_def by (simp only: mset_map)
qed

lemma sum_nth_mset:
  fixes G :: "'a \<Rightarrow> int"
  shows "(\<Sum>i<length us. G (us ! i)) = sum_mset (image_mset G (mset us))"
proof -
  have "(\<Sum>i<length us. G (us ! i)) = sum_list (map G us)"
    by (simp add: sum_list_sum_nth atLeast0LessThan)
  also have "\<dots> = sum_mset (mset (map G us))" by (simp only: sum_mset_sum_list)
  finally show ?thesis by simp
qed

lemma interpolation_by_multiset:
  "performLagrangeInterpolation pts =
     (if \<exists>p\<in>#mset pts. prod_mset (image_mset (\<lambda>xj. px p - xj) (image_mset px (mset pts - {#p#}))) = 0
      then Inl RangeError
      else Inr (map (\<lambda>k. sum_mset (image_mset
                  (\<lambda>p. (py p * (if k = 0 then prod_mset (image_mset uminus (image_mset px (mset pts - {#p#})))
                                  else if size (mset pts) = 2 \<and> k = 1 \<and> image_mset px (mset pts - {#p#}) \<noteq> {#}
                                       then 1 else 0))
                        sdiv prod_mset (image_mset (\<lambda>xj. px p - xj) (image_mset px (mset pts - {#p#}))))
                  (mset pts))) [0 ..< size (mset pts)]))"
proof -
  define D where "D p = prod_mset (image_mset (\<lambda>xj. px p - xj) (image_mset px (mset pts - {#p#})))" for p
  define B where "B k p = (if k = 0 then prod_mset (image_mset uminus (image_mset px (mset pts - {#p#})))
                           else if size (mset pts) = 2 \<and> k = 1 \<and> image_mset px (mset pts - {#p#}) \<noteq> {#}
                                then 1 else (0::int))" for k :: nat and p
  have den: "weightDen pts i = D (pts ! i)" if "i < length pts" for i
  proof -
    have "weightDen pts i = prod_mset (mset (map (\<lambda>xj. px (pts ! i) - xj) (others pts i)))"
      unfolding weightDen_def by (simp only: prod_mset_prod_list)
    then show ?thesis using mset_others [OF that] by (simp add: D_def)
  qed
  have bas: "basisCoeff (length pts) (others pts i) k = B k (pts ! i)" if "i < length pts" for i k
  proof -
    have "prod_list (map uminus (others pts i)) = prod_mset (mset (map uminus (others pts i)))"
      by (simp only: prod_mset_prod_list)
    moreover have "others pts i \<noteq> [] \<longleftrightarrow> mset (others pts i) \<noteq> {#}" by simp
    ultimately show ?thesis using mset_others [OF that] by (simp add: B_def basisCoeff_def)
  qed
  have ex: "(\<exists>i<length pts. weightDen pts i = 0) \<longleftrightarrow> (\<exists>p\<in>#mset pts. D p = 0)"
  proof
    assume "\<exists>i<length pts. weightDen pts i = 0"
    then obtain i where "i < length pts" "D (pts ! i) = 0" using den by auto
    then show "\<exists>p\<in>#mset pts. D p = 0" using nth_mem by fastforce
  next
    assume "\<exists>p\<in>#mset pts. D p = 0"
    then obtain p where "p \<in> set pts" "D p = 0" by auto
    then obtain i where "i < length pts" "D (pts ! i) = 0" by (metis in_set_conv_nth)
    then show "\<exists>i<length pts. weightDen pts i = 0" using den by auto
  qed
  have sm: "(\<Sum>i<length pts. (py (pts ! i) * basisCoeff (length pts) (others pts i) k) sdiv weightDen pts i)
       = sum_mset (image_mset (\<lambda>p. (py p * B k p) sdiv D p) (mset pts))" for k
  proof -
    have "(\<Sum>i<length pts. (py (pts ! i) * basisCoeff (length pts) (others pts i) k) sdiv weightDen pts i)
        = (\<Sum>i<length pts. (py (pts ! i) * B k (pts ! i)) sdiv D (pts ! i))"
      by (rule sum.cong) (simp_all add: den bas)
    also have "\<dots> = sum_mset (image_mset (\<lambda>p. (py p * B k p) sdiv D p) (mset pts))"
      by (rule sum_nth_mset [of "\<lambda>p. (py p * B k p) sdiv D p" pts])
    finally show ?thesis .
  qed
  show ?thesis
    unfolding performLagrangeInterpolation_closed ex sm by (simp add: D_def B_def)
qed

text \<open>
  Claim C7: two lists of points that are permutations of each other give the same result,
  coefficient vector or error. Every term of every sum that the loops build depends on its
  point and on the collection of the other points only.
\<close>

theorem performLagrangeInterpolation_permutation:
  assumes "mset pts = mset qs"
  shows "performLagrangeInterpolation pts = performLagrangeInterpolation qs"
  by (simp only: interpolation_by_multiset [of pts] interpolation_by_multiset [of qs] assms)

theorem performLagrangeInterpolation_permutation_witness:
  "mset [Point 1 3, Point 2 5, Point 4 11] = mset [Point 4 11, Point 1 3, Point 2 5] \<and>
   performLagrangeInterpolation [Point 1 3, Point 2 5, Point 4 11] = Inr [1, 0, 0] \<and>
   performLagrangeInterpolation [Point 4 11, Point 1 3, Point 2 5] = Inr [1, 0, 0]"
proof -
  have m: "mset [Point 1 3, Point 2 5, Point 4 11] = mset [Point 4 11, Point 1 3, Point 2 5]"
    by simp
  have a: "performLagrangeInterpolation [Point 1 3, Point 2 5, Point 4 11] = Inr [1, 0, 0]"
    by code_simp
  show ?thesis
    using performLagrangeInterpolation_permutation [OF m] m a by simp
qed

section \<open>The interpolation formula of Lagrange\<close>

lemma polyfn_zero: "polyfn n (\<lambda>t. 0)"
  unfolding polyfn_def by (rule exI [of _ "\<lambda>i. 0"]) simp

lemma polyfn_add: "polyfn n f \<Longrightarrow> polyfn n g \<Longrightarrow> polyfn n (\<lambda>t. f t + g t)"
proof -
  assume "polyfn n f" "polyfn n g"
  then obtain c d where c: "\<forall>t. f t = (\<Sum>i\<le>n. c i * t ^ i)" and d: "\<forall>t. g t = (\<Sum>i\<le>n. d i * t ^ i)"
    unfolding polyfn_def by blast
  have h: "\<forall>t. f t + g t = (\<Sum>i\<le>n. (c i + d i) * t ^ i)"
    using c d by (simp add: sum.distrib distrib_right)
  show ?thesis unfolding polyfn_def by (rule exI [of _ "\<lambda>i. c i + d i"]) (rule h)
qed

lemma polyfn_scale: "polyfn n f \<Longrightarrow> polyfn n (\<lambda>t. a * f t)"
proof -
  assume "polyfn n f"
  then obtain c where c: "\<forall>t. f t = (\<Sum>i\<le>n. c i * t ^ i)" unfolding polyfn_def by blast
  have h: "\<forall>t. a * f t = (\<Sum>i\<le>n. (a * c i) * t ^ i)"
    using c by (simp add: sum_distrib_left mult.assoc)
  show ?thesis unfolding polyfn_def by (rule exI [of _ "\<lambda>i. a * c i"]) (rule h)
qed

lemma polyfn_sum:
  assumes "finite S" and "\<And>x. x \<in> S \<Longrightarrow> polyfn n (f x)"
  shows "polyfn n (\<lambda>t. \<Sum>x\<in>S. f x t)"
  using assms
proof (induction S)
  case empty
  then show ?case by (simp add: polyfn_zero)
next
  case (insert x S)
  then have "polyfn n (\<lambda>t. f x t + (\<Sum>x\<in>S. f x t))" by (intro polyfn_add) auto
  then show ?case using insert.hyps by simp
qed

lemma polyfn_mult_linear:
  assumes "polyfn n f"
  shows "polyfn (Suc n) (\<lambda>t. (t - a) * f t)"
proof -
  from assms obtain c where c: "\<forall>t. f t = (\<Sum>i\<le>n. c i * t ^ i)" unfolding polyfn_def by blast
  define c' where "c' i = (if i = 0 then 0 else c (i - 1)) - a * (if i \<le> n then c i else 0)" for i
  have h: "(t - a) * f t = (\<Sum>i\<le>Suc n. c' i * t ^ i)" for t
  proof -
    have 1: "(\<Sum>i\<le>Suc n. (if i = 0 then 0 else c (i - 1)) * t ^ i) = t * (\<Sum>i\<le>n. c i * t ^ i)"
      by (simp add: sum.atMost_Suc_shift sum_distrib_left mult_ac del: sum.atMost_Suc)
    have 2: "(\<Sum>i\<le>Suc n. (a * (if i \<le> n then c i else 0)) * t ^ i) = a * (\<Sum>i\<le>n. c i * t ^ i)"
      by (simp add: sum_distrib_left mult_ac)
    have "(\<Sum>i\<le>Suc n. c' i * t ^ i) =
            (\<Sum>i\<le>Suc n. (if i = 0 then 0 else c (i - 1)) * t ^ i)
          - (\<Sum>i\<le>Suc n. (a * (if i \<le> n then c i else 0)) * t ^ i)"
      unfolding c'_def by (simp only: left_diff_distrib sum_subtractf)
    then show ?thesis using c 1 2 by (simp add: left_diff_distrib)
  qed
  show ?thesis unfolding polyfn_def by (rule exI [of _ c']) (simp add: h)
qed

lemma polyfn_prod_linear:
  assumes "finite A"
  shows "polyfn (card A) (\<lambda>t. \<Prod>z\<in>A. (t - z))"
  using assms
proof (induction A)
  case empty
  have "\<forall>t::real. (\<Prod>z\<in>{}. (t - z)) = (\<Sum>i\<le>card ({}::real set). (if i = 0 then 1 else 0) * t ^ i)"
    by simp
  then show ?case unfolding polyfn_def by (rule exI [of _ "\<lambda>i. if i = 0 then 1 else 0"])
next
  case (insert z A)
  have "polyfn (Suc (card A)) (\<lambda>t. (t - z) * (\<Prod>z\<in>A. (t - z)))"
    using insert.IH by (rule polyfn_mult_linear)
  then show ?case using insert.hyps by simp
qed

lemma polyfn_roots:
  assumes "polyfn n f" and "finite S" and "n < card S" and "\<And>x. x \<in> S \<Longrightarrow> f x = 0"
  shows "f t = 0"
proof -
  from assms(1) obtain c where c: "\<forall>t. f t = (\<Sum>i\<le>n. c i * t ^ i)" unfolding polyfn_def by blast
  have "\<forall>k\<le>n. c k = 0"
  proof (rule ccontr)
    assume "\<not> (\<forall>k\<le>n. c k = 0)"
    then obtain k where k: "k \<le> n" "c k \<noteq> 0" by blast
    have fin: "finite {z. (\<Sum>i\<le>n. c i * z ^ i) = 0}" and crd: "card {z. (\<Sum>i\<le>n. c i * z ^ i) = 0} \<le> n"
      using polyfun_rootbound [of c k n] k by blast+
    have "S \<subseteq> {z. (\<Sum>i\<le>n. c i * z ^ i) = 0}" using assms(4) c by auto
    then have "card S \<le> card {z. (\<Sum>i\<le>n. c i * z ^ i) = 0}" using fin by (rule card_mono [rotated])
    then show False using crd assms(3) by simp
  qed
  then show ?thesis using c by simp
qed

lemma lagrange_interpolation:
  assumes "finite S" and "card S = Suc n" and "polyfn n p"
  shows "(\<Sum>x\<in>S. p x * (\<Prod>z\<in>S - {x}. (t - z) / (x - z))) = p t"
proof -
  define q where "q t = (\<Sum>x\<in>S. p x * (\<Prod>z\<in>S - {x}. (t - z) / (x - z))) + (- 1) * p t" for t
  have tm: "polyfn n (\<lambda>t. p x * (\<Prod>z\<in>S - {x}. (t - z) / (x - z)))" if "x \<in> S" for x
  proof -
    have "card (S - {x}) = n" using assms(1,2) that by simp
    then have "polyfn n (\<lambda>t. \<Prod>z\<in>S - {x}. (t - z))"
      using polyfn_prod_linear [of "S - {x}"] assms(1) by simp
    then have "polyfn n (\<lambda>t. (p x / (\<Prod>z\<in>S - {x}. (x - z))) * (\<Prod>z\<in>S - {x}. (t - z)))"
      by (rule polyfn_scale)
    then show ?thesis by (simp add: prod_dividef)
  qed
  have "polyfn n (\<lambda>t. \<Sum>x\<in>S. p x * (\<Prod>z\<in>S - {x}. (t - z) / (x - z)))"
    using assms(1) tm by (rule polyfn_sum)
  moreover have "polyfn n (\<lambda>t. (- 1) * p t)" using assms(3) by (rule polyfn_scale)
  ultimately have pq: "polyfn n q" unfolding q_def by (rule polyfn_add)
  have root: "q x0 = 0" if x0: "x0 \<in> S" for x0
  proof -
    have "p x * (\<Prod>z\<in>S - {x}. (x0 - z) / (x - z)) = (if x = x0 then p x0 else 0)" if "x \<in> S" for x
    proof (cases "x = x0")
      case True
      have "(\<Prod>z\<in>S - {x0}. (x0 - z) / (x0 - z)) = 1" by (rule prod.neutral) auto
      then show ?thesis using True by simp
    next
      case False
      have "(\<Prod>z\<in>S - {x}. (x0 - z) / (x - z)) = 0"
        using assms(1) x0 False by (intro prod_zero) auto
      then show ?thesis using False by simp
    qed
    then have "(\<Sum>x\<in>S. p x * (\<Prod>z\<in>S - {x}. (x0 - z) / (x - z))) = (\<Sum>x\<in>S. if x = x0 then p x0 else 0)"
      by (intro sum.cong) auto
    also have "\<dots> = p x0" using assms(1) x0 by simp
    finally show ?thesis by (simp add: q_def)
  qed
  have "q t = 0" using pq assms(1) _ root by (rule polyfn_roots) (simp add: assms(2))
  then show ?thesis by (simp add: q_def)
qed

section \<open>Interpolation on the points of a polynomial\<close>

lemma poly_eval_sum: "poly_eval cs x = (\<Sum>i<length cs. cs ! i * x ^ i)"
proof (induction cs)
  case Nil
  then show ?case by simp
next
  case (Cons c cs)
  have "(\<Sum>i<length (c # cs). (c # cs) ! i * x ^ i) = c + (\<Sum>i<length cs. cs ! i * x ^ Suc i)"
    by (simp add: sum.lessThan_Suc_shift del: sum.lessThan_Suc)
  also have "\<dots> = c + x * (\<Sum>i<length cs. cs ! i * x ^ i)"
    by (simp add: sum_distrib_left mult_ac)
  finally show ?case using Cons by simp
qed

lemma polyfn_coeffs:
  assumes "cs \<noteq> []"
  shows "polyfn (length cs - 1) (\<lambda>t. \<Sum>i<length cs. real_of_int (cs ! i) * t ^ i)"
proof -
  have "{..<length cs} = {..length cs - 1}" using assms by (cases cs) auto
  then have "\<forall>t::real. (\<Sum>i<length cs. real_of_int (cs ! i) * t ^ i)
                = (\<Sum>i\<le>length cs - 1. real_of_int (cs ! i) * t ^ i)"
    by simp
  then show ?thesis unfolding polyfn_def by (rule exI [of _ "\<lambda>i. real_of_int (cs ! i)"])
qed

lemma others_distinct:
  assumes "distinct (map px pts)" and "i < length pts"
  shows "distinct (others pts i)"
    and "set (others pts i) = set (map px pts) - {px (pts ! i)}"
proof -
  let ?xs = "map px pts"
  have i: "i < length ?xs" using assms(2) by simp
  have o: "others pts i = take i ?xs @ drop (Suc i) ?xs"
    by (simp add: others_def take_map drop_map)
  have x: "?xs = take i ?xs @ ?xs ! i # drop (Suc i) ?xs" using i by (rule id_take_nth_drop)
  have d: "distinct (take i ?xs @ ?xs ! i # drop (Suc i) ?xs)" using assms(1) x by simp
  show "distinct (others pts i)" using d unfolding o by auto
  have "set ?xs = set (take i ?xs @ drop (Suc i) ?xs) \<union> {?xs ! i}"
    by (subst x) auto
  moreover have "?xs ! i \<notin> set (take i ?xs @ drop (Suc i) ?xs)" using d by auto
  ultimately show "set (others pts i) = set (map px pts) - {px (pts ! i)}"
    unfolding o using assms(2) by auto
qed

lemma weightDen_nonzero:
  assumes "distinct (map px pts)" and "i < length pts"
  shows "weightDen pts i \<noteq> 0"
proof -
  have "px (pts ! i) \<notin> set (others pts i)" using others_distinct(2) [OF assms] by simp
  then show ?thesis by (auto simp: weightDen_def prod_list_zero_iff)
qed

lemma interpolation_succeeds:
  assumes "distinct (map px pts)"
  shows "performLagrangeInterpolation pts =
           Inr (map (\<lambda>k. \<Sum>i<length pts. (py (pts ! i) * basisCoeff (length pts) (others pts i) k)
                                            sdiv weightDen pts i) [0 ..< length pts])"
  using weightDen_nonzero [OF assms] by (simp add: performLagrangeInterpolation_closed)

lemma exactDivisions_weights:
  "exactDivisions pts \<longleftrightarrow>
     (\<forall>i<length pts. weightDen pts i dvd py (pts ! i) * weightNum pts i)"
proof -
  have "(case buildBasis pts i of (b, d) \<Rightarrow> d dvd py (pts ! i) * b ! 0)
          \<longleftrightarrow> weightDen pts i dvd py (pts ! i) * weightNum pts i"
    if "i < length pts" for i
  proof -
    have "0 < length pts" using that by (cases pts) auto
    then show ?thesis
      using that by (simp add: buildBasis_closed basisCoeff_def weightNum_def)
  qed
  then show ?thesis by (auto simp: exactDivisions_def list_all_iff)
qed

lemma sdiv_exact:
  fixes a d :: int
  assumes "d dvd a"
  shows "real_of_int (a sdiv d) = real_of_int a / real_of_int d"
proof -
  have "a sdiv d = a div d" using assms by (simp add: signed_divide_int_eq_divide_int)
  then show ?thesis using assms by (simp add: real_of_int_div)
qed


lemma real_prod_others:
  assumes fg: "\<And>x. real_of_int (f x) = g (real_of_int x)"
    and "distinct (map px pts)" and "i < length pts"
  shows "real_of_int (prod_list (map f (others pts i))) =
           (\<Prod>z\<in>real_of_int ` set (map px pts) - {real_of_int (px (pts ! i))}. g z)"
proof -
  let ?A = "set (others pts i)"
  have inj: "inj_on real_of_int ?A" by (simp add: inj_on_def)
  have "prod_list (map f (others pts i)) = prod f ?A"
    using others_distinct(1) [OF assms(2,3)] by (simp add: prod.distinct_set_conv_list)
  then have "real_of_int (prod_list (map f (others pts i))) = (\<Prod>x\<in>?A. g (real_of_int x))"
    by (simp add: fg)
  also have "\<dots> = (\<Prod>z\<in>real_of_int ` ?A. g z)"
    using inj by (simp add: prod.reindex)
  also have "real_of_int ` ?A = real_of_int ` set (map px pts) - {real_of_int (px (pts ! i))}"
    unfolding others_distinct(2) [OF assms(2,3)] by auto
  finally show ?thesis .
qed

lemma constant_term_exact:
  assumes ne: "pts \<noteq> []" and d: "distinct (map px pts)" and len: "length cs = length pts"
    and on: "onPolynomial cs pts" and ex: "exactDivisions pts"
  shows "(\<Sum>i<length pts. (py (pts ! i) * weightNum pts i) sdiv weightDen pts i) = cs ! 0"
proof -
  define n where "n = length pts"
  define rx where "rx = map (\<lambda>p. real_of_int (px p)) pts"
  define S where "S = set rx"
  define P where "P t = (\<Sum>i<length cs. real_of_int (cs ! i) * t ^ i)" for t :: real
  define G where "G r = P r * (\<Prod>z\<in>S - {r}. (0 - z) / (r - z))" for r
  have S_img: "S = real_of_int ` set (map px pts)" by (auto simp: S_def rx_def)
  have "rx = map real_of_int (map px pts)" by (simp add: rx_def)
  then have drx: "distinct rx" using d by (simp add: distinct_map inj_on_def del: map_map)
  have csne: "cs \<noteq> []" using ne len by auto
  have "card S = length rx" unfolding S_def using drx by (rule distinct_card)
  then have cardS: "card S = Suc (length cs - 1)"
    using csne len by (cases cs) (simp_all add: rx_def)
  have lag: "(\<Sum>x\<in>S. G x) = P 0"
    unfolding G_def P_def
    by (rule lagrange_interpolation [OF _ cardS polyfn_coeffs [OF csne]]) (simp add: S_def)
  have P0: "P 0 = real_of_int (cs ! 0)"
  proof -
    have "P 0 = (\<Sum>i<length cs. if i = 0 then real_of_int (cs ! 0) else 0)"
      unfolding P_def by (rule sum.cong) (auto simp: power_0_left)
    also have "\<dots> = real_of_int (cs ! 0)" using csne by simp
    finally show ?thesis .
  qed
  have tm: "real_of_int ((py (pts ! i) * weightNum pts i) sdiv weightDen pts i) = G (rx ! i)"
    if i: "i < length pts" for i
  proof -
    have dv: "weightDen pts i dvd py (pts ! i) * weightNum pts i"
      using ex i by (simp add: exactDivisions_weights)
    have y: "py (pts ! i) = poly_eval cs (px (pts ! i))"
      using on i by (simp add: onPolynomial_def list_all_iff)
    have ry: "real_of_int (py (pts ! i)) = P (rx ! i)"
      unfolding y poly_eval_sum P_def using i by (simp add: rx_def)
    have num: "real_of_int (weightNum pts i) = (\<Prod>z\<in>S - {rx ! i}. (0 - z))"
      unfolding weightNum_def S_img using i
      by (subst real_prod_others [OF _ d i, where g = "\<lambda>z. 0 - z"]) (simp_all add: rx_def)
    have den: "real_of_int (weightDen pts i) = (\<Prod>z\<in>S - {rx ! i}. (rx ! i - z))"
      unfolding weightDen_def S_img using i
      by (subst real_prod_others [OF _ d i, where g = "\<lambda>z. rx ! i - z"]) (simp_all add: rx_def)
    have "real_of_int ((py (pts ! i) * weightNum pts i) sdiv weightDen pts i)
            = real_of_int (py (pts ! i) * weightNum pts i) / real_of_int (weightDen pts i)"
      using dv by (rule sdiv_exact)
    also have "\<dots> = P (rx ! i) * ((\<Prod>z\<in>S - {rx ! i}. (0 - z)) / (\<Prod>z\<in>S - {rx ! i}. (rx ! i - z)))"
      by (simp add: ry num den)
    also have "\<dots> = G (rx ! i)" by (simp only: G_def prod_dividef)
    finally show ?thesis .
  qed
  have "real_of_int (\<Sum>i<length pts. (py (pts ! i) * weightNum pts i) sdiv weightDen pts i)
          = (\<Sum>i<length pts. G (rx ! i))"
    by (simp add: tm)
  also have "\<dots> = sum_list (map G rx)"
    by (simp add: sum_list_sum_nth atLeast0LessThan rx_def)
  also have "\<dots> = (\<Sum>x\<in>S. G x)" using drx by (simp add: sum_list_distinct_conv_sum_set S_def)
  finally have "real_of_int (\<Sum>i<length pts. (py (pts ! i) * weightNum pts i) sdiv weightDen pts i)
                  = real_of_int (cs ! 0)"
    using lag P0 by simp
  then show ?thesis by (simp only: of_int_eq_iff)
qed


text \<open>
  Where the divisions are exact, index 0 is right: for a non-empty list of \<open>k\<close> points with
  pairwise distinct x-values the interpolation returns \<open>k\<close> integers, and when the points
  lie on a polynomial with \<open>k\<close> integer coefficients and every division that the code
  performs for index 0 is exact, index 0 of the result is the constant term of that
  polynomial.
\<close>

lemma interpolation_constant_term:
  assumes "pts \<noteq> []" and "distinct (map px pts)"
  shows "\<exists>r. performLagrangeInterpolation pts = Inr r \<and> length r = length pts \<and>
             (\<forall>cs. length cs = length pts \<and> onPolynomial cs pts \<and> exactDivisions pts
                    \<longrightarrow> r ! 0 = cs ! 0)"
proof -
  define r where "r = map (\<lambda>k. \<Sum>i<length pts. (py (pts ! i) * basisCoeff (length pts) (others pts i) k)
                                            sdiv weightDen pts i) [0 ..< length pts]"
  have 1: "performLagrangeInterpolation pts = Inr r"
    unfolding r_def using assms(2) by (rule interpolation_succeeds)
  have 2: "length r = length pts" by (simp add: r_def)
  have "0 < length pts" using assms(1) by simp
  then have "r ! 0 = (\<Sum>i<length pts. (py (pts ! i) * basisCoeff (length pts) (others pts i) 0)
                                            sdiv weightDen pts i)"
    by (simp add: r_def)
  then have r0: "r ! 0 = (\<Sum>i<length pts. (py (pts ! i) * weightNum pts i) sdiv weightDen pts i)"
    by (simp add: basisCoeff_def weightNum_def)
  have 3: "r ! 0 = cs ! 0"
    if "length cs = length pts \<and> onPolynomial cs pts \<and> exactDivisions pts" for cs
    using that constant_term_exact [OF assms, of cs] r0 by simp
  show ?thesis using 1 2 3 by blast
qed

lemma interpolation_constant_term_example:
  "[Point 1 2, Point 2 5, Point 3 10] \<noteq> [] \<and>
   distinct (map px [Point 1 2, Point 2 5, Point 3 10]) \<and>
   onPolynomial [1, 0, 1] [Point 1 2, Point 2 5, Point 3 10] \<and>
   exactDivisions [Point 1 2, Point 2 5, Point 3 10] \<and>
   (\<exists>r. performLagrangeInterpolation [Point 1 2, Point 2 5, Point 3 10] = Inr r \<and> r ! 0 = 1)"
proof -
  have a: "[Point 1 2, Point 2 5, Point 3 10] \<noteq> []" by simp
  have b: "distinct (map px [Point 1 2, Point 2 5, Point 3 10])" by simp
  have c: "onPolynomial [1, 0, 1] [Point 1 2, Point 2 5, Point 3 10]"
    by (simp add: onPolynomial_def)
  have d: "exactDivisions [Point 1 2, Point 2 5, Point 3 10]"
    by code_simp
  have l: "length [1, 0, 1 :: int] = length [Point 1 2, Point 2 5, Point 3 10]" by simp
  from interpolation_constant_term [OF a b] l c d
  have "\<exists>r. performLagrangeInterpolation [Point 1 2, Point 2 5, Point 3 10] = Inr r \<and>
             r ! 0 = [1, 0, 1 :: int] ! 0"
    by blast
  then show ?thesis using a b c d by simp
qed

text \<open>
  Claim C1 at failing inputs: for points with pairwise distinct x-values on a polynomial of
  degree at most \<open>k - 1\<close> with integer coefficients, the interpolation is to return exactly
  the coefficient vector of that polynomial, as the documentation of
  \<^verbatim>\<open>performLagrangeInterpolation\<close> says too. The points \<open>(1,1)\<close>, \<open>(2,1)\<close>, \<open>(4,1)\<close> lie
  on the constant polynomial 1; the three contributions to index 0 are \<open>8/3\<close>, \<open>-2\<close> and
  \<open>1/3\<close>, line 88 truncates them to 2, \<open>-2\<close> and 0, and the result is the vector of
  zeros, returned without an error. The points \<open>(1,1)\<close>, \<open>(2,2)\<close>, \<open>(3,3)\<close> lie on the
  polynomial \<open>x\<close> and every division is exact, yet the coefficient of \<open>x\<close> in the result
  is 0: line 80 overwrites what line 79 stored one step before.
\<close>

theorem interpolation_failing_input:
  "distinct (map px [Point 1 1, Point 2 1, Point 4 1]) \<and>
   onPolynomial [1, 0, 0] [Point 1 1, Point 2 1, Point 4 1] \<and>
   performLagrangeInterpolation [Point 1 1, Point 2 1, Point 4 1] = Inr [0, 0, 0] \<and>
   distinct (map px [Point 1 1, Point 2 2, Point 3 3]) \<and>
   onPolynomial [0, 1, 0] [Point 1 1, Point 2 2, Point 3 3] \<and>
   performLagrangeInterpolation [Point 1 1, Point 2 2, Point 3 3] = Inr [0, 0, 0]"
proof -
  have a: "performLagrangeInterpolation [Point 1 1, Point 2 1, Point 4 1] = Inr [0, 0, 0]"
    by code_simp
  have b: "performLagrangeInterpolation [Point 1 1, Point 2 2, Point 3 3] = Inr [0, 0, 0]"
    by code_simp
  show ?thesis using a b by (simp add: onPolynomial_def)
qed

lemma candidate_exact:
  assumes "pts \<noteq> []" and "distinct (map px pts)" and "length cs = length pts"
    and "onPolynomial cs pts" and "exactDivisions pts"
  shows "candidate pts = Inr (cs ! 0)"
proof -
  have n: "0 < length pts" using assms(1) by simp
  then have u: "[0 ..< length pts] = 0 # [1 ..< length pts]" by (simp add: upt_conv_Cons)
  have "(\<Sum>i<length pts. (py (pts ! i) * basisCoeff (length pts) (others pts i) 0) sdiv weightDen pts i)
          = cs ! 0"
    using constant_term_exact [OF assms] by (simp add: basisCoeff_def weightNum_def)
  then show ?thesis
    unfolding candidate_def interpolation_succeeds [OF assms(2)] by (subst u) simp
qed

lemma tally_replicate: "tally (replicate (Suc N) s) = [(s, Suc N)]"
proof (induction N)
  case 0
  show ?case by (simp add: tally_def countSecret_def)
next
  case (Suc N)
  have "replicate (Suc (Suc N)) s = replicate (Suc N) s @ [s]"
    by (simp only: replicate_append_same) simp
  then have "tally (replicate (Suc (Suc N)) s) = countSecret s (tally (replicate (Suc N) s))"
    by (simp only: tally_snoc)
  then show ?case using Suc by (simp add: countSecret_def)
qed

text \<open>
  Where the divisions are exact the recovery is unanimous: for points with pairwise distinct
  x-values on a polynomial with \<open>k\<close> integer coefficients, if each division for index 0 in
  each subset of \<open>k\<close> points is exact, every subset gives the constant term of the
  polynomial, and the result has \<open>frequency = totalCombinations = C(n,k)\<close>.
\<close>

lemma consistent_points_exact:
  assumes "1 \<le> k" and "k \<le> int (length pts)" and "distinct (map px pts)"
    and "length cs = nat k" and "onPolynomial cs pts"
    and "\<forall>c\<in>set (generateCombinations pts k). exactDivisions c"
  shows "findSecretWithMinimumRoots pts k =
           Inr \<lparr> secret = cs ! 0, frequency = length pts choose nat k,
                  totalCombinations = length pts choose nat k \<rparr>"
proof -
  let ?cbs = "generateCombinations pts k"
  have gc: "?cbs = combs (nat k) pts" using assms(1) by (simp add: generateCombinations_combs)
  have cand: "candidate c = Inr (cs ! 0)" if c: "c \<in> set ?cbs" for c
  proof -
    have sub: "subseq c pts" and lc: "length c = nat k" using c gc combs_subseq by auto
    have "c \<noteq> []" using lc assms(1) by auto
    moreover have "subseq (map px c) (map px pts)" using sub by (rule subseq_map)
    then have "distinct (map px c)" using assms(3) subseq_set_sorted [of "map px c" "map px pts" "(\<noteq>)"]
      by (simp add: distinct_conv_nth sorted_wrt_iff_nth_less) (metis nat_neq_iff)
    moreover have "set c \<subseteq> set pts" using subseq_set_sorted [OF sub] by blast
    then have "onPolynomial cs c" using assms(5) by (auto simp: onPolynomial_def list_all_iff)
    ultimately show ?thesis using assms(4,6) lc c by (intro candidate_exact) auto
  qed
  have "concat (map (\<lambda>c. case candidate c of Inl e \<Rightarrow> [] | Inr s \<Rightarrow> [s]) cbs) =
          replicate (length cbs) (cs ! 0)"
    if "\<forall>c\<in>set cbs. candidate c = Inr (cs ! 0)" for cbs
    using that by (induction cbs) simp_all
  then have cs: "candidates pts k = replicate (length ?cbs) (cs ! 0)"
    using cand by (simp add: candidates_def)
  have len: "length ?cbs = length pts choose nat k" by (simp add: gc length_combs)
  have "nat k \<le> length pts" using assms(2) by simp
  then have "0 < length pts choose nat k" by (simp add: zero_less_binomial_iff)
  then obtain N where N: "length pts choose nat k = Suc N" by (cases "length pts choose nat k") auto
  have t: "tally (candidates pts k) = [(cs ! 0, Suc N)]"
    by (simp only: cs len N tally_replicate)
  have "candidates pts k \<noteq> []" using cs len N by simp
  then show ?thesis
    by (simp add: findSecret_unfold t len N mostFrequentEntry_def)
qed

text \<open>
  Claim C2 at a failing input. The four points \<open>(1,1)\<close>, \<open>(2,4)\<close>, \<open>(3,9)\<close>, \<open>(4,16)\<close> lie on
  the polynomial \<open>x\<^sup>2\<close>, of degree \<open>k - 1\<close> for \<open>k = 3\<close>, whose constant term is 0. The subset
  of the points at 1, 2 and 4 gives \<open>2 - 8 + 5 = -1\<close> after the truncation of \<open>8/3\<close> and
  \<open>16/3\<close>, the other three subsets give 0: the frequency is 3 and the number of subsets 4.
\<close>

theorem consistent_points_failing_input:
  "distinct (map px [Point 1 1, Point 2 4, Point 3 9, Point 4 16]) \<and>
   onPolynomial [0, 0, 1] [Point 1 1, Point 2 4, Point 3 9, Point 4 16] \<and>
   candidate [Point 1 1, Point 2 4, Point 4 16] = Inr (- 1) \<and>
   secretFrequencyMap [Point 1 1, Point 2 4, Point 3 9, Point 4 16] 3 = [(0, 3), (- 1, 1)] \<and>
   findSecretWithMinimumRoots [Point 1 1, Point 2 4, Point 3 9, Point 4 16] 3
     = Inr \<lparr> secret = 0, frequency = 3, totalCombinations = 4 \<rparr>"
proof -
  have a: "candidate [Point 1 1, Point 2 4, Point 4 16] = Inr (- 1)" by code_simp
  have b: "secretFrequencyMap [Point 1 1, Point 2 4, Point 3 9, Point 4 16] 3 = [(0, 3), (- 1, 1)]"
    by code_simp
  have c: "findSecretWithMinimumRoots [Point 1 1, Point 2 4, Point 3 9, Point 4 16] 3
     = Inr \<lparr> secret = 0, frequency = 3, totalCombinations = 4 \<rparr>"
    by code_simp
  show ?thesis using a b c by (simp add: onPolynomial_def)
qed

end
